theory Spec2Isabelle
  imports Complex_Main "HOL-Library.Monad_Syntax"
begin

section \<open>The sonic speed changer (sonic.c): data model\<close>

text \<open>
  The C file works on one heap-allocated \<^verbatim>\<open>struct sonicStreamStruct\<close> that owns two
  \<^verbatim>\<open>float\<close> arrays. The embedding keeps the struct field by field and passes it
  explicitly: a C function that mutates \<^verbatim>\<open>*stream\<close> takes the record and returns the
  updated one together with its C return value.

  \<^item> \<^verbatim>\<open>float\<close> and \<^verbatim>\<open>double\<close> values are the rational numbers they denote and
    arithmetic on them is exact: rounding, infinities and NaN are not part of the
    model. Every statement below about computed sample values or about
    a comparison of computed doubles is a statement about this exact arithmetic.
    (A division by zero is \<open>0\<close> in HOL; the code divides by zero only where the
    quotient is never used or compared, see \<open>findPitchPeriodInRange\<close>.)
  \<^item> \<^verbatim>\<open>int\<close> is \<^typ>\<open>int\<close>; no operation of the file gets near \<open>2^31\<close> before
    memory is exhausted, and overflow is not modelled.
  \<^item> An array is the list of its cells (its length is the allocated size); a pointer
    field is an \<^typ>\<open>'a option\<close>, \<open>None\<close> being \<^verbatim>\<open>NULL\<close>. A pointer into an
    array (\<^verbatim>\<open>samples + position\<close>) is the list of the cells from there on.
  \<^item> A C function that can run into undefined behaviour (a \<^verbatim>\<open>NULL\<close> dereference,
    an access outside an array, a negative size, an uninitialised variable) or into
    a loop that never ends returns an \<^typ>\<open>'a option\<close>: \<open>None\<close> stands for
    "the call does not return normally", \<open>Some r\<close> for the normal return of \<open>r\<close>.
  \<^item> The allocator is a parameter \<open>A\<close>: \<open>A n\<close> says whether a request for \<open>n\<close>
    floats is granted.
\<close>

type_synonym cfloat = rat
type_synonym cdouble = rat

text \<open>
  The header \<^verbatim>\<open>sonic.h\<close> is not among the sources. Its four macros are taken as a
  parameter of every function that uses them.
\<close>

record sonic_h =
  SONIC_MIN_PITCH :: int
  SONIC_MAX_PITCH :: int
  SONIC_AMDF_FREQ :: int
  SONIC_AMDF_RANGE :: cdouble

record sonicStreamStruct =
  speed :: cdouble
  inputBuffer :: "cfloat list option"
  outputBuffer :: "cfloat list option"
  inputBufferSize :: int
  outputBufferSize :: int
  numInputSamples :: int
  numOutputSamples :: int
  minPeriod :: int
  maxPeriod :: int
  maxRequired :: int
  remainingInputToCopy :: int
  sampleRate :: int

subsection \<open>C arithmetic and the C library\<close>

text \<open>
  Integer division of C truncates towards zero. (Division by zero, which traps in C,
  does not occur: the divisors are the nonzero macros of the header.)
\<close>

definition c_div :: "int \<Rightarrow> int \<Rightarrow> int" where
  "c_div a b = sgn a * sgn b * (\<bar>a\<bar> div \<bar>b\<bar>)"

text \<open>The conversion of a \<^verbatim>\<open>double\<close> to \<^verbatim>\<open>int\<close> drops the fraction.\<close>

definition c_int :: "cdouble \<Rightarrow> int" where
  "c_int x = (if 0 \<le> x then \<lfloor>x\<rfloor> else \<lceil>x\<rceil>)"

text \<open>
  \<^verbatim>\<open>calloc(n, sizeof(float))\<close> and \<^verbatim>\<open>realloc(p, n*sizeof(float))\<close>: \<open>None\<close> is the
  \<^verbatim>\<open>NULL\<close> that reports failure. \<^verbatim>\<open>realloc\<close> keeps the old cells; the new cells are
  indeterminate in C and hold \<open>0\<close> here (the code writes them before it reads them).
  A negative count is a huge \<^verbatim>\<open>size_t\<close>, which no allocator grants.
\<close>

definition calloc :: "(int \<Rightarrow> bool) \<Rightarrow> int \<Rightarrow> cfloat list option" where
  "calloc A n = (if 0 \<le> n \<and> A n then Some (replicate (nat n) 0) else None)"

definition realloc :: "(int \<Rightarrow> bool) \<Rightarrow> cfloat list option \<Rightarrow> int \<Rightarrow> cfloat list option" where
  "realloc A p n =
     (if 0 \<le> n \<and> A n then
        (let old = (case p of None \<Rightarrow> [] | Some b \<Rightarrow> b)
         in Some (take (nat n) old @ replicate (nat n - length old) 0))
      else None)"

text \<open>
  \<^verbatim>\<open>memcpy(dst + off, src, n*sizeof(float))\<close>, \<^verbatim>\<open>memmove(buf + to, buf + from, n*...)\<close>
  and \<^verbatim>\<open>memset(buf + off, 0, n*...)\<close>; each is \<open>None\<close> when it would leave an array.
\<close>

definition memcpy :: "cfloat list \<Rightarrow> int \<Rightarrow> cfloat list \<Rightarrow> int \<Rightarrow> cfloat list option" where
  "memcpy dst off src n =
     (if 0 \<le> off \<and> 0 \<le> n \<and> off + n \<le> int (length dst) \<and> n \<le> int (length src)
      then Some (take (nat off) dst @ take (nat n) src @ drop (nat (off + n)) dst)
      else None)"

definition memmove :: "cfloat list \<Rightarrow> int \<Rightarrow> int \<Rightarrow> int \<Rightarrow> cfloat list option" where
  "memmove buf to from n =
     (if 0 \<le> to \<and> 0 \<le> from \<and> 0 \<le> n \<and> to + n \<le> int (length buf)
         \<and> from + n \<le> int (length buf)
      then Some (take (nat to) buf @ take (nat n) (drop (nat from) buf) @ drop (nat (to + n)) buf)
      else None)"

definition memset0 :: "cfloat list \<Rightarrow> int \<Rightarrow> int \<Rightarrow> cfloat list option" where
  "memset0 buf off n =
     (if 0 \<le> off \<and> 0 \<le> n \<and> off + n \<le> int (length buf)
      then Some (take (nat off) buf @ replicate (nat n) 0 @ drop (nat (off + n)) buf)
      else None)"

text \<open>Reading \<^verbatim>\<open>a[i]\<close>, writing \<^verbatim>\<open>a[i] = v\<close> and forming \<^verbatim>\<open>a + i\<close>.\<close>

definition load :: "cfloat list \<Rightarrow> int \<Rightarrow> cfloat option" where
  "load a i = (if 0 \<le> i \<and> i < int (length a) then Some (a ! nat i) else None)"

definition store :: "cfloat list \<Rightarrow> int \<Rightarrow> cfloat \<Rightarrow> cfloat list option" where
  "store a i v = (if 0 \<le> i \<and> i < int (length a) then Some (a[nat i := v]) else None)"

definition ptr_add :: "cfloat list \<Rightarrow> int \<Rightarrow> cfloat list option" where
  "ptr_add a i = (if 0 \<le> i \<and> i \<le> int (length a) then Some (drop (nat i) a) else None)"

section \<open>The functions of sonic.c\<close>

subsection \<open>Creation\<close>

text \<open>
  \<^verbatim>\<open>sonicCreateStream\<close>: \<open>None\<close> is the \<^verbatim>\<open>NULL\<close> it returns when an allocation
  fails (the struct itself is requested as a block of size \<open>1\<close>). \<^verbatim>\<open>calloc\<close> zeroes
  the struct, so the fields the function does not assign are \<open>0\<close>.
\<close>

definition sonicCreateStream :: "(int \<Rightarrow> bool) \<Rightarrow> sonic_h \<Rightarrow> cdouble \<Rightarrow> int \<Rightarrow> sonicStreamStruct option" where
  "sonicCreateStream A h spd rate =
     (let minP = c_div rate (SONIC_MAX_PITCH h);
          maxP = c_div rate (SONIC_MIN_PITCH h);
          maxReq = 2 * maxP
      in if \<not> A 1 then None
         else case calloc A maxReq of None \<Rightarrow> None
         | Some ib \<Rightarrow>
             (case calloc A maxReq of None \<Rightarrow> None
              | Some ob \<Rightarrow>
                  Some \<lparr> speed = spd, inputBuffer = Some ib, outputBuffer = Some ob,
                         inputBufferSize = maxReq, outputBufferSize = maxReq,
                         numInputSamples = 0, numOutputSamples = 0,
                         minPeriod = minP, maxPeriod = maxP, maxRequired = maxReq,
                         remainingInputToCopy = 0, sampleRate = rate \<rparr>))"

subsection \<open>The two growable buffers\<close>

text \<open>\<^verbatim>\<open>x >> 1\<close> on the (non-negative) buffer size is \<open>x div 2\<close>.\<close>

definition enlargeOutputBufferIfNeeded ::
  "(int \<Rightarrow> bool) \<Rightarrow> sonicStreamStruct \<Rightarrow> int \<Rightarrow> int \<times> sonicStreamStruct" where
  "enlargeOutputBufferIfNeeded A stream numSamples =
     (if numOutputSamples stream + numSamples > outputBufferSize stream then
        (let newSize = outputBufferSize stream + ((outputBufferSize stream div 2) + numSamples);
             stream1 = stream\<lparr>outputBufferSize := newSize\<rparr>;
             stream2 = stream1\<lparr>outputBuffer := realloc A (outputBuffer stream1) newSize\<rparr>
         in if outputBuffer stream2 = None then (0, stream2) else (1, stream2))
      else (1, stream))"

definition enlargeInputBufferIfNeeded ::
  "(int \<Rightarrow> bool) \<Rightarrow> sonicStreamStruct \<Rightarrow> int \<Rightarrow> int \<times> sonicStreamStruct" where
  "enlargeInputBufferIfNeeded A stream numSamples =
     (if numInputSamples stream + numSamples > inputBufferSize stream then
        (let newSize = inputBufferSize stream + ((inputBufferSize stream div 2) + numSamples);
             stream1 = stream\<lparr>inputBufferSize := newSize\<rparr>;
             stream2 = stream1\<lparr>inputBuffer := realloc A (inputBuffer stream1) newSize\<rparr>
         in if inputBuffer stream2 = None then (0, stream2) else (1, stream2))
      else (1, stream))"

definition addSamplesToInputBuffer ::
  "(int \<Rightarrow> bool) \<Rightarrow> sonicStreamStruct \<Rightarrow> cfloat list \<Rightarrow> int \<Rightarrow> (int \<times> sonicStreamStruct) option" where
  "addSamplesToInputBuffer A stream samples numSamples =
     (if numSamples = 0 then Some (1, stream)
      else case enlargeInputBufferIfNeeded A stream numSamples of
        (ok, stream1) \<Rightarrow>
          if ok = 0 then Some (0, stream1)
          else do {
            ib \<leftarrow> inputBuffer stream1;
            ib' \<leftarrow> memcpy ib (numInputSamples stream1) samples numSamples;
            Some (1, stream1\<lparr>inputBuffer := Some ib',
                             numInputSamples := numInputSamples stream1 + numSamples\<rparr>)
          })"

definition removeInputSamples :: "sonicStreamStruct \<Rightarrow> int \<Rightarrow> sonicStreamStruct option" where
  "removeInputSamples stream position =
     (let remainingSamples = numInputSamples stream - position
      in do {
        stream1 \<leftarrow> (if remainingSamples > 0 then do {
                       ib \<leftarrow> inputBuffer stream;
                       ib' \<leftarrow> memmove ib 0 position remainingSamples;
                       Some (stream\<lparr>inputBuffer := Some ib'\<rparr>)
                     } else Some stream);
        Some (stream1\<lparr>numInputSamples := remainingSamples\<rparr>)
      })"

definition copyToOutput ::
  "(int \<Rightarrow> bool) \<Rightarrow> sonicStreamStruct \<Rightarrow> cfloat list \<Rightarrow> int \<Rightarrow> (int \<times> sonicStreamStruct) option" where
  "copyToOutput A stream samples numSamples =
     (case enlargeOutputBufferIfNeeded A stream numSamples of
        (ok, stream1) \<Rightarrow>
          if ok = 0 then Some (0, stream1)
          else do {
            ob \<leftarrow> outputBuffer stream1;
            ob' \<leftarrow> memcpy ob (numOutputSamples stream1) samples numSamples;
            Some (numSamples, stream1\<lparr>outputBuffer := Some ob',
                                      numOutputSamples := numOutputSamples stream1 + numSamples\<rparr>)
          })"

definition copyInputToOutput ::
  "(int \<Rightarrow> bool) \<Rightarrow> sonicStreamStruct \<Rightarrow> int \<Rightarrow> (int \<times> sonicStreamStruct) option" where
  "copyInputToOutput A stream position =
     (let numSamples = (if remainingInputToCopy stream > maxRequired stream
                        then maxRequired stream else remainingInputToCopy stream)
      in do {
        ib \<leftarrow> inputBuffer stream;
        window \<leftarrow> ptr_add ib position;
        (r, stream1) \<leftarrow> copyToOutput A stream window numSamples;
        if r = 0 then Some (0, stream1)
        else Some (numSamples,
                   stream1\<lparr>remainingInputToCopy := remainingInputToCopy stream1 - numSamples\<rparr>)
      })"

subsection \<open>Reading\<close>

text \<open>
  \<^verbatim>\<open>sonicReadFromStream\<close> returns its count, and here also the cells it wrote to
  the caller's array \<^verbatim>\<open>samples\<close>.
\<close>

definition sonicReadFromStream ::
  "sonicStreamStruct \<Rightarrow> int \<Rightarrow> (int \<times> cfloat list \<times> sonicStreamStruct) option" where
  "sonicReadFromStream stream maxSamples =
     (if numOutputSamples stream = 0 then Some (0, [], stream)
      else
        (let remainingSamples = (if numOutputSamples stream > maxSamples
                                 then numOutputSamples stream - maxSamples else 0);
             numSamples = (if numOutputSamples stream > maxSamples
                           then maxSamples else numOutputSamples stream)
         in do {
           ob \<leftarrow> outputBuffer stream;
           got \<leftarrow> (if 0 \<le> numSamples \<and> numSamples \<le> int (length ob)
                   then Some (take (nat numSamples) ob) else None);
           stream1 \<leftarrow> (if remainingSamples > 0 then do {
                          ob' \<leftarrow> memmove ob 0 numSamples remainingSamples;
                          Some (stream\<lparr>outputBuffer := Some ob'\<rparr>)
                        } else Some stream);
           Some (numSamples, got, stream1\<lparr>numOutputSamples := remainingSamples\<rparr>)
         }))"

definition sonicSamplesAvailale :: "sonicStreamStruct \<Rightarrow> int" where
  "sonicSamplesAvailale stream = numOutputSamples stream"

subsection \<open>Pitch detection\<close>

text \<open>
  The inner loop of \<^verbatim>\<open>findPitchPeriodInRange\<close>: \<^verbatim>\<open>s\<close> is \<^verbatim>\<open>samples + xSample\<close> and
  \<^verbatim>\<open>p\<close> is \<^verbatim>\<open>samples + period + xSample\<close> throughout. With \<open>skip \<le> 0\<close> the C
  loop never leaves \<open>xSample < period\<close>.
\<close>

function diffLoop :: "cfloat list \<Rightarrow> int \<Rightarrow> int \<Rightarrow> int \<Rightarrow> cdouble \<Rightarrow> cdouble option" where
  "diffLoop samples period skip xSample diff =
     (if xSample < period then
        (if skip \<le> 0 then None
         else do {
           s \<leftarrow> load samples xSample;
           p \<leftarrow> load samples (xSample + period);
           let value = s - p;
           diffLoop samples period skip (xSample + skip)
             (diff + (if value \<ge> 0 then value else - value))
         })
      else Some diff)"
  by pat_completeness auto
termination
  by (relation "measure (\<lambda>(samples, period, skip, xSample, diff). nat (period - xSample))") auto

text \<open>
  The outer loop, with the loop variables \<^verbatim>\<open>period\<close>, \<^verbatim>\<open>bestPeriod\<close> and
  \<^verbatim>\<open>minDiff\<close> as arguments. For \<open>period = 0\<close> the C code computes \<^verbatim>\<open>diff / 0\<close>
  (not a number); \<open>bestPeriod\<close> is \<open>0\<close> again after that step, so the next
  candidate is taken without looking at \<open>minDiff\<close>.
\<close>

function periodLoop ::
  "cfloat list \<Rightarrow> int \<Rightarrow> int \<Rightarrow> int \<Rightarrow> int \<Rightarrow> cdouble \<Rightarrow> int option" where
  "periodLoop samples maxP skip period bestPeriod minDiff =
     (if period \<le> maxP then
        (if skip \<le> 0 then None
         else do {
           diff \<leftarrow> diffLoop samples period skip 0 0;
           if bestPeriod = 0 \<or> diff < minDiff * of_int period
           then periodLoop samples maxP skip (period + skip) period (diff / of_int period)
           else periodLoop samples maxP skip (period + skip) bestPeriod minDiff
         })
      else Some bestPeriod)"
  by pat_completeness auto
termination
  by (relation "measure (\<lambda>(samples, maxP, skip, period, bestPeriod, minDiff). nat (maxP + 1 - period))")
     auto

definition findPitchPeriodInRange :: "cfloat list \<Rightarrow> int \<Rightarrow> int \<Rightarrow> int \<Rightarrow> int option" where
  "findPitchPeriodInRange samples minP maxP skip = periodLoop samples maxP skip minP 0 0"

definition findPitchPeriod :: "sonic_h \<Rightarrow> sonicStreamStruct \<Rightarrow> cfloat list \<Rightarrow> int option" where
  "findPitchPeriod h stream samples =
     (let skip = (if sampleRate stream > SONIC_AMDF_FREQ h
                  then c_div (sampleRate stream) (SONIC_AMDF_FREQ h) else 1)
      in do {
        period \<leftarrow> findPitchPeriodInRange samples (minPeriod stream) (maxPeriod stream) skip;
        let minP = c_int (of_int period * (1 - SONIC_AMDF_RANGE h));
        let maxP = c_int (of_int period * (1 + SONIC_AMDF_RANGE h));
        let minP = (if minP < minPeriod stream then minPeriod stream else minP);
        let maxP = (if maxP > maxPeriod stream then maxPeriod stream else maxP);
        findPitchPeriodInRange samples minP maxP 1
      })"

subsection \<open>Skipping and inserting a pitch period\<close>

text \<open>
  The crossfade loops write \<^verbatim>\<open>out[t]\<close>, where \<^verbatim>\<open>out\<close> is the output buffer from
  index \<open>base\<close> on.
\<close>

function skipLoop ::
  "cfloat list \<Rightarrow> int \<Rightarrow> int \<Rightarrow> cdouble \<Rightarrow> cfloat list \<Rightarrow> int \<Rightarrow> int \<Rightarrow> cfloat list option" where
  "skipLoop samples period newSamples scale ob base t =
     (if t < newSamples then do {
        a \<leftarrow> load samples t;
        b \<leftarrow> load samples (t + period);
        ob' \<leftarrow> store ob (base + t) (scale * (a * of_int (newSamples - t) + b * of_int t));
        skipLoop samples period newSamples scale ob' base (t + 1)
      } else Some ob)"
  by pat_completeness auto
termination
  by (relation "measure (\<lambda>(samples, period, newSamples, scale, ob, base, t). nat (newSamples - t))")
     auto

function insertLoop ::
  "cfloat list \<Rightarrow> int \<Rightarrow> int \<Rightarrow> cdouble \<Rightarrow> cfloat list \<Rightarrow> int \<Rightarrow> int \<Rightarrow> cfloat list option" where
  "insertLoop samples period newSamples scale ob base t =
     (if t < newSamples then do {
        a \<leftarrow> load samples t;
        b \<leftarrow> load samples (t + period);
        ob' \<leftarrow> store ob (base + t) (scale * (a * of_int t + b * of_int (newSamples - t)));
        insertLoop samples period newSamples scale ob' base (t + 1)
      } else Some ob)"
  by pat_completeness auto
termination
  by (relation "measure (\<lambda>(samples, period, newSamples, scale, ob, base, t). nat (newSamples - t))")
     auto

text \<open>The equations of the four loops are unfolded by hand, one pass at a time.\<close>

declare diffLoop.simps [simp del] periodLoop.simps [simp del]
  skipLoop.simps [simp del] insertLoop.simps [simp del]

text \<open>
  \<^verbatim>\<open>skipPitchPeriod\<close> leaves \<^verbatim>\<open>newSamples\<close> uninitialised unless \<open>speed > 1\<close>;
  reading it then is undefined.
\<close>

definition skipPitchPeriod ::
  "(int \<Rightarrow> bool) \<Rightarrow> sonicStreamStruct \<Rightarrow> cfloat list \<Rightarrow> cdouble \<Rightarrow> int
     \<Rightarrow> (int \<times> sonicStreamStruct) option" where
  "skipPitchPeriod A stream samples spd period = do {
     (newSamples, stream1) \<leftarrow>
        (if spd \<ge> 2 then Some (c_int (of_int period / (spd - 1)), stream)
         else if spd > 1 then
           Some (period, stream\<lparr>remainingInputToCopy :=
                                   c_int (of_int period * (2 - spd) / (spd - 1))\<rparr>)
         else None);
     let scale = 1 / of_int newSamples;
     case enlargeOutputBufferIfNeeded A stream1 newSamples of
       (ok, stream2) \<Rightarrow>
         if ok = 0 then Some (0, stream2)
         else do {
           ob \<leftarrow> outputBuffer stream2;
           ob' \<leftarrow> skipLoop samples period newSamples scale ob (numOutputSamples stream2) 0;
           Some (newSamples, stream2\<lparr>outputBuffer := Some ob',
                                     numOutputSamples := numOutputSamples stream2 + newSamples\<rparr>)
         }
   }"

definition insertPitchPeriod ::
  "(int \<Rightarrow> bool) \<Rightarrow> sonicStreamStruct \<Rightarrow> cfloat list \<Rightarrow> cdouble \<Rightarrow> int
     \<Rightarrow> (int \<times> sonicStreamStruct) option" where
  "insertPitchPeriod A stream samples spd period =
     (let (newSamples, stream1) =
        (if spd < 1 / 2 then (c_int (of_int period * spd / (1 - spd)), stream)
         else (period, stream\<lparr>remainingInputToCopy :=
                                 c_int (of_int period * (2 * spd - 1) / (1 - spd))\<rparr>))
      in case enlargeOutputBufferIfNeeded A stream1 (period + newSamples) of
        (ok, stream2) \<Rightarrow>
          if ok = 0 then Some (0, stream2)
          else do {
            ob \<leftarrow> outputBuffer stream2;
            ob1 \<leftarrow> memcpy ob (numOutputSamples stream2) samples period;
            let scale = 1 / of_int newSamples;
            ob2 \<leftarrow> insertLoop samples period newSamples scale ob1
                     (numOutputSamples stream2 + period) 0;
            Some (newSamples, stream2\<lparr>outputBuffer := Some ob2,
                      numOutputSamples := numOutputSamples stream2 + (period + newSamples)\<rparr>)
          })"

subsection \<open>The driver\<close>

text \<open>
  One pass of the body of the \<^verbatim>\<open>do ... while\<close> loop of \<^verbatim>\<open>sonicWriteToStream\<close>, up to
  the test of \<^verbatim>\<open>newSamples\<close>: it returns \<^verbatim>\<open>newSamples\<close>, the new \<^verbatim>\<open>position\<close> and
  the stream. \<^verbatim>\<open>samples\<close> is \<^verbatim>\<open>stream->inputBuffer\<close>, which the loop never reallocates.
\<close>

definition driverStep ::
  "(int \<Rightarrow> bool) \<Rightarrow> sonic_h \<Rightarrow> sonicStreamStruct \<Rightarrow> cdouble \<Rightarrow> int
     \<Rightarrow> (int \<times> int \<times> sonicStreamStruct) option" where
  "driverStep A h stream spd position =
     (if remainingInputToCopy stream > 0 then do {
        (newSamples, stream1) \<leftarrow> copyInputToOutput A stream position;
        Some (newSamples, position + newSamples, stream1)
      } else do {
        samples \<leftarrow> inputBuffer stream;
        window \<leftarrow> ptr_add samples position;
        period \<leftarrow> findPitchPeriod h stream window;
        if spd > 1 then do {
          (newSamples, stream1) \<leftarrow> skipPitchPeriod A stream window spd period;
          Some (newSamples, position + (period + newSamples), stream1)
        } else do {
          (newSamples, stream1) \<leftarrow> insertPitchPeriod A stream window spd period;
          Some (newSamples, position + newSamples, stream1)
        }
      })"

text \<open>
  The loop itself. It returns the value \<^verbatim>\<open>sonicWriteToStream\<close> is about to return
  (\<open>0\<close> from inside the loop, \<open>1\<close> after it), the final \<^verbatim>\<open>position\<close> and the stream.
  The C loop need not end for every stream (a stream with a negative sample rate
  moves \<^verbatim>\<open>position\<close> backwards), so the function is partial: \<open>None\<close> also stands
  for a loop that runs forever.
\<close>

partial_function (option) driverLoop ::
  "(int \<Rightarrow> bool) \<Rightarrow> sonic_h \<Rightarrow> cdouble \<Rightarrow> int \<Rightarrow> int \<Rightarrow> sonicStreamStruct \<Rightarrow> int
     \<Rightarrow> (int \<times> int \<times> sonicStreamStruct) option" where
  "driverLoop A h spd maxReq numSamples stream position =
     driverStep A h stream spd position \<bind> (\<lambda>r.
       if fst r = 0 then Some (0, fst (snd r), snd (snd r))
       else if fst (snd r) + maxReq \<le> numSamples
         then driverLoop A h spd maxReq numSamples (snd (snd r)) (fst (snd r))
         else Some (1, fst (snd r), snd (snd r)))"

declare driverLoop.simps [code]

definition sonicWriteToStream ::
  "(int \<Rightarrow> bool) \<Rightarrow> sonic_h \<Rightarrow> sonicStreamStruct \<Rightarrow> cfloat list \<Rightarrow> int
     \<Rightarrow> (int \<times> sonicStreamStruct) option" where
  "sonicWriteToStream A h stream samples numSamples =
     (let spd = speed stream; maxReq = maxRequired stream
      in if spd > 999999 / 1000000 \<and> spd < 1000001 / 1000000
         then copyToOutput A stream samples numSamples
         else do {
           (ok, stream1) \<leftarrow> addSamplesToInputBuffer A stream samples numSamples;
           if ok = 0 then Some (0, stream1)
           else if numInputSamples stream1 < maxReq then Some (1, stream1)
           else do {
             (r, position, stream2) \<leftarrow>
                driverLoop A h spd maxReq (numInputSamples stream1) stream1 0;
             if r = 0 then Some (0, stream2)
             else do {
               stream3 \<leftarrow> removeInputSamples stream2 position;
               Some (1, stream3)
             }
           }
         })"

subsection \<open>Flushing\<close>

text \<open>
  \<^verbatim>\<open>sonicWriteToStream(stream, NULL, 0)\<close> passes no samples: the empty list.
\<close>

definition sonicFlushStream ::
  "(int \<Rightarrow> bool) \<Rightarrow> sonic_h \<Rightarrow> sonicStreamStruct \<Rightarrow> (int \<times> sonicStreamStruct) option" where
  "sonicFlushStream A h stream =
     (let maxReq = maxRequired stream; numSamples = numInputSamples stream
      in if numSamples = 0 then Some (1, stream)
         else do {
           (r, stream1) \<leftarrow> (if numSamples \<ge> maxReq then sonicWriteToStream A h stream [] 0
                            else Some (1, stream));
           if r = 0 then Some (0, stream1)
           else do {
             let numSamples = numInputSamples stream1;
             let remainingSpace = maxReq - numSamples;
             ib \<leftarrow> inputBuffer stream1;
             ib' \<leftarrow> memset0 ib numSamples remainingSpace;
             sonicWriteToStream A h
               (stream1\<lparr>inputBuffer := Some ib', numInputSamples := maxReq\<rparr>) [] 0
           }
         })"

section \<open>Queues, well-formed streams and sessions\<close>

text \<open>
  The queue a buffer holds is the first \<^verbatim>\<open>numOutputSamples\<close> (\<^verbatim>\<open>numInputSamples\<close>)
  cells of its array; the cells behind are allocated and unused. A buffer is in
  order when its pointer is not \<^verbatim>\<open>NULL\<close>, the array has the recorded size and the
  count lies within it.
\<close>

definition outputQueue :: "sonicStreamStruct \<Rightarrow> cfloat list" where
  "outputQueue stream =
     (case outputBuffer stream of None \<Rightarrow> [] | Some ob \<Rightarrow> take (nat (numOutputSamples stream)) ob)"

definition inputQueue :: "sonicStreamStruct \<Rightarrow> cfloat list" where
  "inputQueue stream =
     (case inputBuffer stream of None \<Rightarrow> [] | Some ib \<Rightarrow> take (nat (numInputSamples stream)) ib)"

definition out_ok :: "sonicStreamStruct \<Rightarrow> bool" where
  "out_ok stream =
     (case outputBuffer stream of None \<Rightarrow> False
      | Some ob \<Rightarrow> int (length ob) = outputBufferSize stream
           \<and> 0 \<le> numOutputSamples stream \<and> numOutputSamples stream \<le> outputBufferSize stream)"

definition in_ok :: "sonicStreamStruct \<Rightarrow> bool" where
  "in_ok stream =
     (case inputBuffer stream of None \<Rightarrow> False
      | Some ib \<Rightarrow> int (length ib) = inputBufferSize stream
           \<and> 0 \<le> numInputSamples stream \<and> numInputSamples stream \<le> inputBufferSize stream)"

text \<open>
  The fields that are set at creation, and the fields a function that works on one
  buffer leaves alone.
\<close>

definition config_eq :: "sonicStreamStruct \<Rightarrow> sonicStreamStruct \<Rightarrow> bool" where
  "config_eq s s' =
     (speed s' = speed s \<and> sampleRate s' = sampleRate s \<and> minPeriod s' = minPeriod s
      \<and> maxPeriod s' = maxPeriod s \<and> maxRequired s' = maxRequired s)"

definition out_frame :: "sonicStreamStruct \<Rightarrow> sonicStreamStruct \<Rightarrow> bool" where
  "out_frame s s' =
     (config_eq s s' \<and> inputBuffer s' = inputBuffer s \<and> inputBufferSize s' = inputBufferSize s
      \<and> numInputSamples s' = numInputSamples s
      \<and> remainingInputToCopy s' = remainingInputToCopy s)"

definition in_frame :: "sonicStreamStruct \<Rightarrow> sonicStreamStruct \<Rightarrow> bool" where
  "in_frame s s' =
     (config_eq s s' \<and> outputBuffer s' = outputBuffer s \<and> outputBufferSize s' = outputBufferSize s
      \<and> numOutputSamples s' = numOutputSamples s
      \<and> remainingInputToCopy s' = remainingInputToCopy s)"

text \<open>Two allocators: one that grants every request and one that grants none.\<close>

definition alloc_ok :: "int \<Rightarrow> bool" where
  "alloc_ok n = True"

definition alloc_fails :: "int \<Rightarrow> bool" where
  "alloc_fails n = False"

text \<open>
  Example values for the macros of the absent header: a pitch range of 65 Hz to
  400 Hz, down-sampling to about 11 kHz and a search range of a fifth around the
  first estimate. The theorems below hold for every header; the example is used
  where a concrete call is evaluated.
\<close>

definition sonic_h_example :: sonic_h where
  "sonic_h_example =
     \<lparr> SONIC_MIN_PITCH = 65, SONIC_MAX_PITCH = 400, SONIC_AMDF_FREQ = 11025,
       SONIC_AMDF_RANGE = 1 / 5 \<rparr>"

text \<open>The test of \<^verbatim>\<open>sonicWriteToStream\<close> for "no speed change".\<close>

definition identity_speed :: "cdouble \<Rightarrow> bool" where
  "identity_speed spd = (999999 / 1000000 < spd \<and> spd < 1000001 / 1000000)"

text \<open>
  A session is a list of calls of the public functions on one stream. \<open>run\<close> makes
  the calls in order, each write with the length of its array as \<^verbatim>\<open>numSamples\<close>,
  and returns for every call its return value and the samples it handed to the
  caller (none but for a read), and the stream at the end. \<open>written\<close> is everything
  the session passed to \<^verbatim>\<open>sonicWriteToStream\<close>, \<open>samples_read\<close> everything
  \<^verbatim>\<open>sonicReadFromStream\<close> returned, and \<open>writes_accepted\<close> says that every write
  returned its \<^verbatim>\<open>numSamples\<close>.
\<close>

datatype call = Write "cfloat list" | Read int | Flush

fun run :: "(int \<Rightarrow> bool) \<Rightarrow> sonic_h \<Rightarrow> sonicStreamStruct \<Rightarrow> call list
              \<Rightarrow> ((int \<times> cfloat list) list \<times> sonicStreamStruct) option" where
  "run A h s [] = Some ([], s)"
| "run A h s (Write xs # cs) = do {
     (r, s1) \<leftarrow> sonicWriteToStream A h s xs (int (length xs));
     (rs, s2) \<leftarrow> run A h s1 cs;
     Some ((r, []) # rs, s2)
   }"
| "run A h s (Read k # cs) = do {
     (r, d, s1) \<leftarrow> sonicReadFromStream s k;
     (rs, s2) \<leftarrow> run A h s1 cs;
     Some ((r, d) # rs, s2)
   }"
| "run A h s (Flush # cs) = do {
     (r, s1) \<leftarrow> sonicFlushStream A h s;
     (rs, s2) \<leftarrow> run A h s1 cs;
     Some ((r, []) # rs, s2)
   }"



fun writes_accepted :: "call list \<Rightarrow> (int \<times> cfloat list) list \<Rightarrow> bool" where
  "writes_accepted [] rs = True"
| "writes_accepted (Write xs # cs) rs =
     (case rs of [] \<Rightarrow> False | r # rs' \<Rightarrow> fst r = int (length xs) \<and> writes_accepted cs rs')"
| "writes_accepted (c # cs) rs = writes_accepted cs (tl rs)"

text \<open>
  The crossfades as the specification writes them: sample \<open>t\<close> of the run that
  skipping a period produces, and of the run that inserting a period produces,
  from the window, the period and the length \<open>newSamples\<close> of the run.
\<close>

definition skipFade :: "cfloat list \<Rightarrow> nat \<Rightarrow> nat \<Rightarrow> nat \<Rightarrow> cfloat" where
  "skipFade window period newSamples t =
     (window ! t * of_nat (newSamples - t) + window ! (t + period) * of_nat t) / of_nat newSamples"





text \<open>
  Streams and sessions used as examples: small streams written out field by field,
  a window with period 3, the stream at 800 Hz that holds this window
  (\<open>resampler_example\<close>), the stream at 8000 Hz after \<open>n\<close> zero samples have
  been queued (\<open>silent_input\<close>), and a session at 800 Hz that fills the output
  buffer under an allocator with room for 24 floats (\<open>flush_example\<close> is the
  stream it ends in).
\<close>

definition read_example :: sonicStreamStruct where
  "read_example =
     \<lparr> speed = 2, inputBuffer = Some [0, 0, 0, 0], outputBuffer = Some [1, 2, 3, 4, 5, 0],
       inputBufferSize = 4, outputBufferSize = 6, numInputSamples = 0, numOutputSamples = 5,
       minPeriod = 1, maxPeriod = 2, maxRequired = 4, remainingInputToCopy = 0,
       sampleRate = 130 \<rparr>"

definition add_example :: sonicStreamStruct where
  "add_example =
     \<lparr> speed = 2, inputBuffer = Some [5, 6], outputBuffer = Some [0, 0],
       inputBufferSize = 2, outputBufferSize = 2, numInputSamples = 2, numOutputSamples = 0,
       minPeriod = 0, maxPeriod = 1, maxRequired = 2, remainingInputToCopy = 0,
       sampleRate = 65 \<rparr>"


definition bounds_session :: "call list" where
  "bounds_session = [Write [1, 2, 3], Flush, Read 10]"



definition silent_input :: "cdouble \<Rightarrow> nat \<Rightarrow> sonicStreamStruct" where
  "silent_input spd n =
     \<lparr> speed = spd, inputBuffer = Some (replicate 246 0), outputBuffer = Some (replicate 246 0),
       inputBufferSize = 246, outputBufferSize = 246, numInputSamples = int n,
       numOutputSamples = 0, minPeriod = 20, maxPeriod = 123, maxRequired = 246,
       remainingInputToCopy = 0, sampleRate = 8000 \<rparr>"




section \<open>The buffers\<close>

lemma out_okE:
  assumes "out_ok s"
  obtains ob where "outputBuffer s = Some ob" "int (length ob) = outputBufferSize s"
    "0 \<le> numOutputSamples s" "numOutputSamples s \<le> outputBufferSize s"
  using assms by (auto simp: out_ok_def split: option.splits)

lemma in_okE:
  assumes "in_ok s"
  obtains ib where "inputBuffer s = Some ib" "int (length ib) = inputBufferSize s"
    "0 \<le> numInputSamples s" "numInputSamples s \<le> inputBufferSize s"
  using assms by (auto simp: in_ok_def split: option.splits)

lemma config_eq_refl [simp]: "config_eq s s"
  by (simp add: config_eq_def)

lemma config_eq_trans: "config_eq s s' \<Longrightarrow> config_eq s' s'' \<Longrightarrow> config_eq s s''"
  by (simp add: config_eq_def)

lemma enlargeOutput_cases [consumes 2, case_names fits grown failed]:
  assumes "out_ok s" and "0 \<le> n"
  obtains
    "numOutputSamples s + n \<le> outputBufferSize s"
      "enlargeOutputBufferIfNeeded A s n = (1, s)"
  | ob where "outputBufferSize s < numOutputSamples s + n"
      "A (outputBufferSize s + (outputBufferSize s div 2 + n))"
      "outputBuffer s = Some ob"
      "enlargeOutputBufferIfNeeded A s n =
         (1, s\<lparr>outputBufferSize := outputBufferSize s + (outputBufferSize s div 2 + n),
               outputBuffer := Some (ob @ replicate (nat (outputBufferSize s div 2 + n)) 0)\<rparr>)"
  | "outputBufferSize s < numOutputSamples s + n"
      "\<not> A (outputBufferSize s + (outputBufferSize s div 2 + n))"
      "enlargeOutputBufferIfNeeded A s n =
         (0, s\<lparr>outputBufferSize := outputBufferSize s + (outputBufferSize s div 2 + n),
               outputBuffer := None\<rparr>)"
proof -
  from assms(1) obtain ob where ob: "outputBuffer s = Some ob"
    "int (length ob) = outputBufferSize s" "0 \<le> numOutputSamples s"
    "numOutputSamples s \<le> outputBufferSize s"
    by (rule out_okE)
  let ?new = "outputBufferSize s + (outputBufferSize s div 2 + n)"
  have new: "0 \<le> ?new" "int (length ob) \<le> ?new" using ob assms(2) by auto
  have grow: "nat ?new - length ob = nat (outputBufferSize s div 2 + n)"
    using ob assms(2) by auto
  consider "numOutputSamples s + n \<le> outputBufferSize s"
    | "outputBufferSize s < numOutputSamples s + n" "A ?new"
    | "outputBufferSize s < numOutputSamples s + n" "\<not> A ?new"
    by linarith
  then show thesis
  proof cases
    case 1
    then show ?thesis
      by (intro that(1)) (simp_all add: enlargeOutputBufferIfNeeded_def)
  next
    case 2
    have "enlargeOutputBufferIfNeeded A s n =
         (1, s\<lparr>outputBufferSize := ?new,
               outputBuffer := Some (ob @ replicate (nat (outputBufferSize s div 2 + n)) 0)\<rparr>)"
      using 2 ob new grow
      by (simp add: enlargeOutputBufferIfNeeded_def realloc_def Let_def)
    with 2 ob show ?thesis
      by (intro that(2)) simp_all
  next
    case 3
    then show ?thesis
      by (intro that(3)) (simp_all add: enlargeOutputBufferIfNeeded_def realloc_def Let_def)
  qed
qed

lemma enlargeInput_cases [consumes 2, case_names fits grown failed]:
  assumes "in_ok s" and "0 \<le> n"
  obtains
    "numInputSamples s + n \<le> inputBufferSize s"
      "enlargeInputBufferIfNeeded A s n = (1, s)"
  | ib where "inputBufferSize s < numInputSamples s + n"
      "A (inputBufferSize s + (inputBufferSize s div 2 + n))"
      "inputBuffer s = Some ib"
      "enlargeInputBufferIfNeeded A s n =
         (1, s\<lparr>inputBufferSize := inputBufferSize s + (inputBufferSize s div 2 + n),
               inputBuffer := Some (ib @ replicate (nat (inputBufferSize s div 2 + n)) 0)\<rparr>)"
  | "inputBufferSize s < numInputSamples s + n"
      "\<not> A (inputBufferSize s + (inputBufferSize s div 2 + n))"
      "enlargeInputBufferIfNeeded A s n =
         (0, s\<lparr>inputBufferSize := inputBufferSize s + (inputBufferSize s div 2 + n),
               inputBuffer := None\<rparr>)"
proof -
  from assms(1) obtain ib where ib: "inputBuffer s = Some ib"
    "int (length ib) = inputBufferSize s" "0 \<le> numInputSamples s"
    "numInputSamples s \<le> inputBufferSize s"
    by (rule in_okE)
  let ?new = "inputBufferSize s + (inputBufferSize s div 2 + n)"
  have new: "0 \<le> ?new" "int (length ib) \<le> ?new" using ib assms(2) by auto
  have grow: "nat ?new - length ib = nat (inputBufferSize s div 2 + n)"
    using ib assms(2) by auto
  consider "numInputSamples s + n \<le> inputBufferSize s"
    | "inputBufferSize s < numInputSamples s + n" "A ?new"
    | "inputBufferSize s < numInputSamples s + n" "\<not> A ?new"
    by linarith
  then show thesis
  proof cases
    case 1
    then show ?thesis
      by (intro that(1)) (simp_all add: enlargeInputBufferIfNeeded_def)
  next
    case 2
    have "enlargeInputBufferIfNeeded A s n =
         (1, s\<lparr>inputBufferSize := ?new,
               inputBuffer := Some (ib @ replicate (nat (inputBufferSize s div 2 + n)) 0)\<rparr>)"
      using 2 ib new grow
      by (simp add: enlargeInputBufferIfNeeded_def realloc_def Let_def)
    with 2 ib show ?thesis
      by (intro that(2)) simp_all
  next
    case 3
    then show ?thesis
      by (intro that(3)) (simp_all add: enlargeInputBufferIfNeeded_def realloc_def Let_def)
  qed
qed

lemma copyToOutput_cases [consumes 3, case_names copied failed]:
  assumes "out_ok s" and "0 \<le> n" and "n \<le> int (length samples)"
  obtains s' where "copyToOutput A s samples n = Some (n, s')" "out_ok s'"
      "outputQueue s' = outputQueue s @ take (nat n) samples"
      "numOutputSamples s' = numOutputSamples s + n"
      "outputBufferSize s \<le> outputBufferSize s'" "out_frame s s'"
  | s' where "copyToOutput A s samples n = Some (0, s')" "outputBuffer s' = None"
      "outputBufferSize s < numOutputSamples s + n"
      "\<not> A (outputBufferSize s + (outputBufferSize s div 2 + n))" "out_frame s s'"
proof -
  from assms(1) obtain ob where ob: "outputBuffer s = Some ob"
    "int (length ob) = outputBufferSize s" "0 \<le> numOutputSamples s"
    "numOutputSamples s \<le> outputBufferSize s"
    by (rule out_okE)
  obtain m where m: "numOutputSamples s = int m"
    using ob(3) by (auto elim: nonneg_int_cases)
  obtain j where j: "n = int j"
    using assms(2) by (auto elim: nonneg_int_cases)
  from assms(1,2) show thesis
  proof (cases rule: enlargeOutput_cases [where A = A])
    case fits
    let ?s' = "s\<lparr>outputBuffer := Some (take m ob @ take j samples @ drop (m + j) ob),
                  numOutputSamples := numOutputSamples s + n\<rparr>"
    have c: "copyToOutput A s samples n = Some (n, ?s')"
      using fits ob m j assms(3)
      by (simp add: copyToOutput_def memcpy_def nat_add_distrib nat_int_add)
    show ?thesis
    proof (rule that(1) [OF c])
      show "out_ok ?s'" using fits ob m j assms(3)
        by (simp add: out_ok_def)
      show "outputQueue ?s' = outputQueue s @ take (nat n) samples"
        using fits ob m j assms(3) by (simp add: outputQueue_def nat_int_add)
      show "out_frame s ?s'" by (simp add: out_frame_def config_eq_def)
    qed simp_all
  next
    case (grown ob')
    let ?ob = "ob @ replicate (nat (outputBufferSize s div 2 + n)) 0"
    let ?s' = "s\<lparr>outputBufferSize := outputBufferSize s + (outputBufferSize s div 2 + n),
                  outputBuffer := Some (take m ?ob @ take j samples @ drop (m + j) ?ob),
                  numOutputSamples := numOutputSamples s + n\<rparr>"
    have half: "0 \<le> outputBufferSize s div 2" using ob by simp
    have c: "copyToOutput A s samples n = Some (n, ?s')"
      using grown ob m j assms(3) half
      by (simp add: copyToOutput_def memcpy_def nat_add_distrib nat_int_add)
    show ?thesis
    proof (rule that(1) [OF c])
      show "out_ok ?s'" using grown ob m j assms(3) half
        by (simp add: out_ok_def nat_add_distrib nat_int_add)
      show "outputQueue ?s' = outputQueue s @ take (nat n) samples"
        using grown ob m j assms(3) by (simp add: outputQueue_def nat_int_add)
      show "out_frame s ?s'" by (simp add: out_frame_def config_eq_def)
      show "outputBufferSize s \<le> outputBufferSize ?s'" using half j by simp
    qed simp_all
  next
    case failed
    let ?s' = "s\<lparr>outputBufferSize := outputBufferSize s + (outputBufferSize s div 2 + n),
                  outputBuffer := None\<rparr>"
    have c: "copyToOutput A s samples n = Some (0, ?s')"
      using failed by (simp add: copyToOutput_def)
    show ?thesis
      by (rule that(2) [OF c]) (use failed in \<open>simp_all add: out_frame_def config_eq_def\<close>)
  qed
qed

lemma addSamples_cases [consumes 3, case_names added failed]:
  assumes "in_ok s" and "0 \<le> n" and "n \<le> int (length samples)"
  obtains s' where "addSamplesToInputBuffer A s samples n = Some (1, s')" "in_ok s'"
      "inputQueue s' = inputQueue s @ take (nat n) samples"
      "numInputSamples s' = numInputSamples s + n"
      "inputBufferSize s' = (if numInputSamples s + n \<le> inputBufferSize s then inputBufferSize s
                            else inputBufferSize s + (inputBufferSize s div 2 + n))"
      "numInputSamples s + n \<le> inputBufferSize s
         \<or> A (inputBufferSize s + (inputBufferSize s div 2 + n))"
      "in_frame s s'"
  | "addSamplesToInputBuffer A s samples n =
       Some (0, s\<lparr>inputBufferSize := inputBufferSize s + (inputBufferSize s div 2 + n),
                   inputBuffer := None\<rparr>)"
      "inputBufferSize s < numInputSamples s + n"
      "\<not> A (inputBufferSize s + (inputBufferSize s div 2 + n))"
proof -
  from assms(1) obtain ib where ib: "inputBuffer s = Some ib"
    "int (length ib) = inputBufferSize s" "0 \<le> numInputSamples s"
    "numInputSamples s \<le> inputBufferSize s"
    by (rule in_okE)
  obtain m where m: "numInputSamples s = int m"
    using ib(3) by (auto elim: nonneg_int_cases)
  obtain j where j: "n = int j"
    using assms(2) by (auto elim: nonneg_int_cases)
  from assms(1,2) show thesis
  proof (cases rule: enlargeInput_cases [where A = A])
    case fits
    let ?s' = "s\<lparr>inputBuffer := Some (take m ib @ take j samples @ drop (m + j) ib),
                  numInputSamples := numInputSamples s + n\<rparr>"
    show ?thesis
    proof (cases "j = 0")
      case True
      have c: "addSamplesToInputBuffer A s samples n = Some (1, s)"
        using True j by (simp add: addSamplesToInputBuffer_def)
      show ?thesis
        by (rule that(1) [OF c])
           (use True j fits assms(1) in \<open>simp_all add: in_frame_def\<close>)
    next
      case False
      have c: "addSamplesToInputBuffer A s samples n = Some (1, ?s')"
        using False fits ib m j assms(3)
        by (simp add: addSamplesToInputBuffer_def memcpy_def nat_int_add)
      show ?thesis
      proof (rule that(1) [OF c])
        show "in_ok ?s'" using fits ib m j assms(3)
          by (simp add: in_ok_def)
        show "inputQueue ?s' = inputQueue s @ take (nat n) samples"
          using fits ib m j assms(3) by (simp add: inputQueue_def nat_int_add)
        show "in_frame s ?s'" by (simp add: in_frame_def config_eq_def)
      qed (use fits in simp_all)
    qed
  next
    case (grown ib')
    let ?ib = "ib @ replicate (nat (inputBufferSize s div 2 + n)) 0"
    let ?s' = "s\<lparr>inputBufferSize := inputBufferSize s + (inputBufferSize s div 2 + n),
                  inputBuffer := Some (take m ?ib @ take j samples @ drop (m + j) ?ib),
                  numInputSamples := numInputSamples s + n\<rparr>"
    have half: "0 \<le> inputBufferSize s div 2" using ib by simp
    have j0: "j \<noteq> 0" using grown ib m j by auto
    have c: "addSamplesToInputBuffer A s samples n = Some (1, ?s')"
      using grown ib m j j0 assms(3) half
      by (simp add: addSamplesToInputBuffer_def memcpy_def nat_add_distrib nat_int_add)
    show ?thesis
    proof (rule that(1) [OF c])
      show "in_ok ?s'" using grown ib m j assms(3) half
        by (simp add: in_ok_def nat_add_distrib nat_int_add)
      show "inputQueue ?s' = inputQueue s @ take (nat n) samples"
        using grown ib m j assms(3) by (simp add: inputQueue_def nat_int_add)
      show "in_frame s ?s'" by (simp add: in_frame_def config_eq_def)
    qed (use grown in simp_all)
  next
    case failed
    have j0: "n \<noteq> 0" using failed ib by auto
    show ?thesis
      by (rule that(2)) (use failed j0 in \<open>simp_all add: addSamplesToInputBuffer_def\<close>)
  qed
qed

lemma create_spec:
  assumes "sonicCreateStream A h spd rate = Some s"
  shows "speed s = spd" "sampleRate s = rate"
    "minPeriod s = c_div rate (SONIC_MAX_PITCH h)"
    "maxPeriod s = c_div rate (SONIC_MIN_PITCH h)"
    "maxRequired s = 2 * maxPeriod s"
    "numInputSamples s = 0" "numOutputSamples s = 0" "remainingInputToCopy s = 0"
    "inputBufferSize s = maxRequired s" "outputBufferSize s = maxRequired s"
    "inputBuffer s = Some (replicate (nat (maxRequired s)) 0)"
    "outputBuffer s = Some (replicate (nat (maxRequired s)) 0)"
    "0 \<le> maxRequired s" "in_ok s" "out_ok s"
  using assms
  by (auto simp: sonicCreateStream_def calloc_def Let_def in_ok_def out_ok_def
           split: if_splits option.splits)

lemma read_spec:
  assumes ok: "out_ok s" and k: "0 \<le> k"
  shows "\<exists>s'. sonicReadFromStream s k
            = Some (min (numOutputSamples s) k, take (nat k) (outputQueue s), s')
          \<and> outputQueue s' = drop (nat k) (outputQueue s)
          \<and> numOutputSamples s' = numOutputSamples s - min (numOutputSamples s) k
          \<and> out_ok s'
          \<and> s' = s\<lparr>outputBuffer := outputBuffer s', numOutputSamples := numOutputSamples s'\<rparr>"
proof -
  from ok obtain ob where ob: "outputBuffer s = Some ob" "int (length ob) = outputBufferSize s"
    "0 \<le> numOutputSamples s" "numOutputSamples s \<le> outputBufferSize s"
    by (rule out_okE)
  obtain n where n: "numOutputSamples s = int n"
    using ob(3) by (auto elim: nonneg_int_cases)
  obtain j where j: "k = int j"
    using k by (auto elim: nonneg_int_cases)
  have len: "n \<le> length ob" using ob n by simp
  show ?thesis
  proof (cases "n = 0")
    case True
    then show ?thesis using ok ob n j
      by (simp add: sonicReadFromStream_def outputQueue_def)
  next
    case False
    show ?thesis
    proof (cases "j < n")
      case True
      have "take (n - j) (drop j ob) = drop j (take n ob)"
        by (simp add: drop_take)
      with True False ob n j len show ?thesis
        by (simp add: sonicReadFromStream_def outputQueue_def memmove_def out_ok_def min_def Let_def
              nat_diff_distrib of_nat_diff)
    next
      case F2: False
      with False ob n j len show ?thesis
        by (simp add: sonicReadFromStream_def outputQueue_def out_ok_def min_def Let_def)
    qed
  qed
qed

lemma read_any:
  assumes "out_ok s" and "sonicReadFromStream s k = Some (r, d, s')"
  shows "d = take (nat k) (outputQueue s)" "outputQueue s' = drop (nat k) (outputQueue s)"
    "out_ok s'" "config_eq s s'" "numInputSamples s' = numInputSamples s"
    "r = int (length d)"
proof -
  have *: "d = take (nat k) (outputQueue s) \<and> outputQueue s' = drop (nat k) (outputQueue s)
      \<and> out_ok s' \<and> config_eq s s' \<and> numInputSamples s' = numInputSamples s \<and> r = int (length d)"
  proof (cases "0 \<le> k")
    case True
    from read_spec [OF assms(1) True] obtain t where
      t: "sonicReadFromStream s k = Some (min (numOutputSamples s) k, take (nat k) (outputQueue s), t)"
      "outputQueue t = drop (nat k) (outputQueue s)" "out_ok t"
      "t = s\<lparr>outputBuffer := outputBuffer t, numOutputSamples := numOutputSamples t\<rparr>"
      by blast
    have eq: "r = min (numOutputSamples s) k" "d = take (nat k) (outputQueue s)" "s' = t"
      using t(1) assms(2) by simp_all
    have cfg: "config_eq s t" "numInputSamples t = numInputSamples s"
      by (subst t(4), simp add: config_eq_def)+
    have "int (length (take (nat k) (outputQueue s))) = min (numOutputSamples s) k"
      using assms(1) True by (auto simp: outputQueue_def elim!: out_okE)
    with eq t cfg show ?thesis by simp
  next
    case False
    from assms(1) obtain ob where ob: "outputBuffer s = Some ob"
      "0 \<le> numOutputSamples s" by (rule out_okE)
    from False assms(2) ob have "numOutputSamples s = 0"
      by (auto simp: sonicReadFromStream_def Let_def split: if_splits)
    with assms False ob show ?thesis
      by (simp add: sonicReadFromStream_def outputQueue_def)
  qed
  from * show "d = take (nat k) (outputQueue s)" "outputQueue s' = drop (nat k) (outputQueue s)"
    "out_ok s'" "config_eq s s'" "numInputSamples s' = numInputSamples s"
    "r = int (length d)" by simp_all
qed

section \<open>Reading in chunks\<close>

text \<open>
  C8. A read of at most \<open>k\<close> samples returns \<open>min n k\<close> as its count and the first
  \<open>k\<close> samples of the output queue (all of them when there are fewer, none and the
  count \<open>0\<close> when the queue is empty), and leaves the rest of the queue in order at
  the front. Hence a read of \<open>k\<close> followed by a read of \<open>m\<close> returns, concatenated,
  what one read of \<open>k + m\<close> returns, with the same total count, and leaves the same
  queue behind.
\<close>

theorem read_chunks:
  assumes "out_ok s" and "0 \<le> k" and "0 \<le> m"
  shows "\<exists>d1 s1 d2 s2 s12.
           sonicReadFromStream s k = Some (min (numOutputSamples s) k, d1, s1)
         \<and> d1 = take (nat k) (outputQueue s)
         \<and> outputQueue s1 = drop (nat k) (outputQueue s)
         \<and> sonicReadFromStream s1 m = Some (min (numOutputSamples s1) m, d2, s2)
         \<and> sonicReadFromStream s (k + m) = Some (min (numOutputSamples s) (k + m), d1 @ d2, s12)
         \<and> min (numOutputSamples s) k + min (numOutputSamples s1) m = min (numOutputSamples s) (k + m)
         \<and> outputQueue s2 = outputQueue s12
         \<and> numOutputSamples s2 = numOutputSamples s12"
proof -
  from read_spec [OF assms(1,2)] obtain s1 where
    r1: "sonicReadFromStream s k = Some (min (numOutputSamples s) k, take (nat k) (outputQueue s), s1)"
    and q1: "outputQueue s1 = drop (nat k) (outputQueue s)"
    and n1: "numOutputSamples s1 = numOutputSamples s - min (numOutputSamples s) k"
    and ok1: "out_ok s1"
    by blast
  from read_spec [OF ok1 assms(3)] obtain s2 where
    r2: "sonicReadFromStream s1 m = Some (min (numOutputSamples s1) m, take (nat m) (outputQueue s1), s2)"
    and q2: "outputQueue s2 = drop (nat m) (outputQueue s1)"
    and n2: "numOutputSamples s2 = numOutputSamples s1 - min (numOutputSamples s1) m"
    by blast
  have km: "0 \<le> k + m" using assms by simp
  from read_spec [OF assms(1) km] obtain s12 where
    r12: "sonicReadFromStream s (k + m)
            = Some (min (numOutputSamples s) (k + m), take (nat (k + m)) (outputQueue s), s12)"
    and q12: "outputQueue s12 = drop (nat (k + m)) (outputQueue s)"
    and n12: "numOutputSamples s12 = numOutputSamples s - min (numOutputSamples s) (k + m)"
    by blast
  have nat_km: "nat (k + m) = nat k + nat m"
    using assms by (simp add: nat_add_distrib)
  have cat: "take (nat k) (outputQueue s) @ take (nat m) (outputQueue s1)
               = take (nat (k + m)) (outputQueue s)"
    by (simp add: q1 nat_km take_add)
  have rest: "outputQueue s2 = outputQueue s12"
    by (simp add: q2 q1 q12 nat_km add.commute)
  have cnt: "min (numOutputSamples s) k + min (numOutputSamples s1) m
               = min (numOutputSamples s) (k + m)"
    using assms n1 by (simp add: min_def)
  have "numOutputSamples s2 = numOutputSamples s12"
    using n1 n2 n12 cnt by simp
  with r1 q1 r2 r12 cat rest cnt show ?thesis
    by (metis (no_types))
qed

theorem read_chunks_witness:
  "out_ok read_example \<and>
   sonicReadFromStream read_example 2
     = Some (2, [1, 2], read_example\<lparr>outputBuffer := Some [3, 4, 5, 4, 5, 0], numOutputSamples := 3\<rparr>) \<and>
   (\<exists>d1 s1 d2 s2 s12.
      sonicReadFromStream read_example 2 = Some (min (numOutputSamples read_example) 2, d1, s1)
    \<and> d1 = take (nat 2) (outputQueue read_example)
    \<and> outputQueue s1 = drop (nat 2) (outputQueue read_example)
    \<and> sonicReadFromStream s1 2 = Some (min (numOutputSamples s1) 2, d2, s2)
    \<and> sonicReadFromStream read_example (2 + 2)
         = Some (min (numOutputSamples read_example) (2 + 2), d1 @ d2, s12)
    \<and> min (numOutputSamples read_example) 2 + min (numOutputSamples s1) 2
         = min (numOutputSamples read_example) (2 + 2)
    \<and> outputQueue s2 = outputQueue s12
    \<and> numOutputSamples s2 = numOutputSamples s12)"
proof -
  have ok: "out_ok read_example"
    by (simp add: read_example_def out_ok_def)
  have ev: "sonicReadFromStream read_example 2
     = Some (2, [1, 2], read_example\<lparr>outputBuffer := Some [3, 4, 5, 4, 5, 0], numOutputSamples := 3\<rparr>)"
    by (simp add: read_example_def sonicReadFromStream_def memmove_def Let_def)
  have k: "(0::int) \<le> 2"
    by simp
  show ?thesis
    by (rule conjI [OF ok conjI [OF ev read_chunks [OF ok k k]]])
qed

section \<open>Appending to the input buffer\<close>

text \<open>
  C9, as the code has it. On a stream whose input buffer is in order,
  \<^verbatim>\<open>addSamplesToInputBuffer\<close> with the \<open>n\<close> samples of an array fails exactly when the
  buffer must grow (count plus \<open>n\<close> exceeds the size) and \<^verbatim>\<open>realloc\<close> refuses the
  new size. Otherwise it returns \<open>1\<close>, the queue is the old queue followed by the
  \<open>n\<close> samples, the count has grown by \<open>n\<close>, and the size has grown first, to
  \<open>size + size/2 + n\<close>, if and only if the samples did not fit. On failure it
  returns \<open>0\<close> and the count is as before, but the size field already holds the
  new size and the buffer pointer is \<^verbatim>\<open>NULL\<close>: the samples queued before are
  no longer reachable from the stream.
\<close>

theorem addSamples_spec:
  assumes "in_ok s" and "n = int (length samples)"
  shows "if numInputSamples s + n \<le> inputBufferSize s
            \<or> A (inputBufferSize s + (inputBufferSize s div 2 + n))
         then \<exists>s'. addSamplesToInputBuffer A s samples n = Some (1, s')
                \<and> inputQueue s' = inputQueue s @ samples
                \<and> numInputSamples s' = numInputSamples s + n
                \<and> inputBufferSize s' =
                    (if numInputSamples s + n \<le> inputBufferSize s then inputBufferSize s
                     else inputBufferSize s + (inputBufferSize s div 2 + n))
                \<and> numInputSamples s' \<le> inputBufferSize s'
                \<and> in_ok s'
         else addSamplesToInputBuffer A s samples n
                = Some (0, s\<lparr>inputBufferSize := inputBufferSize s + (inputBufferSize s div 2 + n),
                            inputBuffer := None\<rparr>)"
proof -
  have n: "0 \<le> n" "n \<le> int (length samples)" using assms(2) by simp_all
  from assms(1) n show ?thesis
  proof (cases rule: addSamples_cases [where A = A])
    case (added s')
    moreover have "numInputSamples s' \<le> inputBufferSize s'"
      using added(2) by (auto elim: in_okE)
    ultimately show ?thesis using assms(2) by auto
  next
    case failed
    then show ?thesis by auto
  qed
qed

theorem addSamples_spec_witness:
  "in_ok add_example \<and> (1::int) = int (length [7::rat]) \<and>
   (\<exists>s'. addSamplesToInputBuffer alloc_ok add_example [7] 1 = Some (1, s')
        \<and> inputQueue s' = [5, 6, 7] \<and> numInputSamples s' = 3 \<and> inputBufferSize s' = 4)"
proof -
  have ok: "in_ok add_example"
    by (simp add: add_example_def in_ok_def)
  have n: "(1::int) = int (length [7::rat])"
    by simp
  from addSamples_spec [OF ok n, where A = alloc_ok] ok n show ?thesis
    by (auto simp: alloc_ok_def add_example_def inputQueue_def)
qed

text \<open>
  The claim as stated (a failure leaves the contents of the buffer intact) fails:
  with two samples queued in a full buffer and an allocator that refuses, the call
  returns \<open>0\<close> and the stream's input buffer is \<^verbatim>\<open>NULL\<close>.
\<close>

theorem addSamples_contents_counterexample:
  "in_ok add_example \<and> inputQueue add_example = [5, 6] \<and>
   addSamplesToInputBuffer alloc_fails add_example [7] 1
     = Some (0, add_example\<lparr>inputBufferSize := 4, inputBuffer := None\<rparr>) \<and>
   inputQueue (add_example\<lparr>inputBufferSize := 4, inputBuffer := None\<rparr>) = []"
  by (simp add: add_example_def in_ok_def inputQueue_def addSamplesToInputBuffer_def
        enlargeInputBufferIfNeeded_def realloc_def alloc_fails_def Let_def)

section \<open>The identity stream\<close>


lemma flush_empty_input:
  "numInputSamples s = 0 \<Longrightarrow> sonicFlushStream A h s = Some (1, s)"
  by (simp add: sonicFlushStream_def)




text \<open>
  Such sessions return: with an allocator that grants every request and reads of
  non-negative counts, every call of the session returns and every write is
  accepted.
\<close>

lemma run_identity_returns:
  assumes "identity_speed (speed s)" and "out_ok s" and "numInputSamples s = 0"
    and "\<And>n. A n" and "\<And>k. Read k \<in> set cs \<Longrightarrow> 0 \<le> k"
  shows "\<exists>rs s'. run A h s cs = Some (rs, s') \<and> writes_accepted cs rs"
  using assms(1,2,3,5)
proof (induction cs arbitrary: s)
  case Nil
  then show ?case by simp
next
  case (Cons c cs)
  have reads: "\<And>k. Read k \<in> set cs \<Longrightarrow> 0 \<le> k" using Cons.prems(4) by simp
  show ?case
  proof (cases c)
    case (Write xs)
    have n: "0 \<le> int (length xs)" "int (length xs) \<le> int (length xs)" by simp_all
    from Cons.prems(2) n obtain s1 where
      c1: "copyToOutput A s xs (int (length xs)) = Some (int (length xs), s1)"
      and ok1: "out_ok s1" and fr: "out_frame s s1"
    proof (cases rule: copyToOutput_cases [where A = A])
      case (copied s')
      then show ?thesis using that by blast
    next
      case (failed s')
      with assms(4) show ?thesis by simp
    qed
    have w: "sonicWriteToStream A h s xs (int (length xs)) = Some (int (length xs), s1)"
      using Cons.prems(1) c1 by (simp add: sonicWriteToStream_def identity_speed_def)
    have "identity_speed (speed s1)" "numInputSamples s1 = 0"
      using fr Cons.prems(1,3) by (simp_all add: out_frame_def config_eq_def)
    from Cons.IH [OF this(1) ok1 this(2) reads] obtain rs s' where
      "run A h s1 cs = Some (rs, s')" "writes_accepted cs rs" by blast
    with w Write show ?thesis by simp
  next
    case (Read k)
    then have k: "0 \<le> k" using Cons.prems(4) by simp
    from read_spec [OF Cons.prems(2) k] obtain s1 where
      r: "sonicReadFromStream s k
            = Some (min (numOutputSamples s) k, take (nat k) (outputQueue s), s1)"
      by blast
    note ra = read_any [OF Cons.prems(2) r]
    have "identity_speed (speed s1)" "numInputSamples s1 = 0"
      using ra(4,5) Cons.prems(1,3) by (simp_all add: config_eq_def)
    from Cons.IH [OF this(1) ra(3) this(2) reads] obtain rs s' where
      "run A h s1 cs = Some (rs, s')" "writes_accepted cs rs" by blast
    with r Read show ?thesis by simp
  next
    case Flush
    from Cons.IH [OF Cons.prems(1,2,3) reads] obtain rs s' where
      "run A h s cs = Some (rs, s')" "writes_accepted cs rs" by blast
    with Flush flush_empty_input [OF Cons.prems(3), of A h] show ?thesis by simp
  qed
qed

lemma identity_session_returns:
  assumes "identity_speed spd" and "sonicCreateStream A h spd rate = Some s0"
    and "\<And>n. A n" and "\<And>k. Read k \<in> set cs \<Longrightarrow> 0 \<le> k"
  shows "\<exists>rs s. run A h s0 cs = Some (rs, s) \<and> writes_accepted cs rs"
proof -
  note cr = create_spec [OF assms(2)]
  show ?thesis
    using assms(1) cr(1) by (intro run_identity_returns cr(15) cr(6) assms(3,4)) simp_all
qed

section \<open>The configuration is fixed at creation\<close>

lemma enlargeOutput_config: "enlargeOutputBufferIfNeeded A s n = (r, s') \<Longrightarrow> config_eq s s'"
  by (auto simp: enlargeOutputBufferIfNeeded_def config_eq_def Let_def split: if_splits)

lemma enlargeInput_config: "enlargeInputBufferIfNeeded A s n = (r, s') \<Longrightarrow> config_eq s s'"
  by (auto simp: enlargeInputBufferIfNeeded_def config_eq_def Let_def split: if_splits)

lemma copyToOutput_config: "copyToOutput A s xs n = Some (r, s') \<Longrightarrow> config_eq s s'"
  unfolding copyToOutput_def
  by (auto simp: config_eq_def dest!: enlargeOutput_config
           split: prod.splits if_splits Option.bind_splits)

lemma addSamples_config: "addSamplesToInputBuffer A s xs n = Some (r, s') \<Longrightarrow> config_eq s s'"
  unfolding addSamplesToInputBuffer_def
  by (auto simp: config_eq_def dest!: enlargeInput_config
           split: prod.splits if_splits Option.bind_splits)

lemma removeInput_config: "removeInputSamples s p = Some s' \<Longrightarrow> config_eq s s'"
  by (auto simp: removeInputSamples_def config_eq_def Let_def
           split: if_splits Option.bind_splits)

lemma copyInputToOutput_config: "copyInputToOutput A s p = Some (r, s') \<Longrightarrow> config_eq s s'"
  unfolding copyInputToOutput_def Let_def
  by (auto simp: config_eq_def dest!: copyToOutput_config split: if_splits Option.bind_splits)

lemma read_config: "sonicReadFromStream s k = Some (r, d, s') \<Longrightarrow> config_eq s s'"
  by (auto simp: sonicReadFromStream_def config_eq_def Let_def
           split: if_splits Option.bind_splits)

lemma skipPitchPeriod_config: "skipPitchPeriod A s w spd p = Some (r, s') \<Longrightarrow> config_eq s s'"
  unfolding skipPitchPeriod_def Let_def
  by (auto simp: config_eq_def dest!: enlargeOutput_config
           split: prod.splits if_splits Option.bind_splits)

lemma insertPitchPeriod_config: "insertPitchPeriod A s w spd p = Some (r, s') \<Longrightarrow> config_eq s s'"
  unfolding insertPitchPeriod_def Let_def
  by (auto simp: config_eq_def dest!: enlargeOutput_config
           split: prod.splits if_splits Option.bind_splits)

lemma driverStep_config: "driverStep A h s spd p = Some (r, p', s') \<Longrightarrow> config_eq s s'"
  unfolding driverStep_def
  by (auto dest!: copyInputToOutput_config skipPitchPeriod_config insertPitchPeriod_config
           split: prod.splits if_splits Option.bind_splits)

lemma driverLoop_config_aux:
  assumes "driverLoop A h spd maxReq numSamples s p = Some y"
  shows "config_eq s (snd (snd y))"
proof (rule driverLoop.raw_induct
    [where P = "\<lambda>A h spd maxReq numSamples s p y. config_eq s (snd (snd y))", OF _ assms])
  fix f A h spd maxReq numSamples s p y
  assume IH: "\<And>A h spd maxReq numSamples s p y.
      f A h spd maxReq numSamples s p = Some y \<Longrightarrow> config_eq s (snd (snd y))"
    and body: "driverStep A h s spd p \<bind>
       (\<lambda>r. if fst r = 0 then Some (0, fst (snd r), snd (snd r))
            else if fst (snd r) + maxReq \<le> numSamples
              then f A h spd maxReq numSamples (snd (snd r)) (fst (snd r))
              else Some (1, fst (snd r), snd (snd r))) = Some y"
  from body obtain n q t where
    st: "driverStep A h s spd p = Some (n, q, t)"
    and rest: "(if n = 0 then Some (0, q, t)
                else if q + maxReq \<le> numSamples then f A h spd maxReq numSamples t q
                else Some (1, q, t)) = Some y"
    by (auto split: Option.bind_splits cong: if_cong)
  have c1: "config_eq s t" using st by (rule driverStep_config)
  have "config_eq t (snd (snd y))"
    using rest IH by (auto split: if_splits)
  with c1 show "config_eq s (snd (snd y))" by (rule config_eq_trans)
qed

lemma driverLoop_config:
  "driverLoop A h spd maxReq numSamples s p = Some (r, p', s') \<Longrightarrow> config_eq s s'"
  by (drule driverLoop_config_aux) simp

lemma write_config: "sonicWriteToStream A h s xs n = Some (r, s') \<Longrightarrow> config_eq s s'"
  unfolding sonicWriteToStream_def Let_def
  by (auto dest!: copyToOutput_config addSamples_config driverLoop_config removeInput_config
           intro: config_eq_trans
           split: prod.splits if_splits Option.bind_splits)

lemma flush_config: "sonicFlushStream A h s = Some (r, s') \<Longrightarrow> config_eq s s'"
proof -
  assume a: "sonicFlushStream A h s = Some (r, s')"
  show ?thesis
  proof (cases "numInputSamples s = 0")
    case True
    with a show ?thesis by (simp add: sonicFlushStream_def)
  next
    case False
    have "\<exists>r1 s1. (if numInputSamples s \<ge> maxRequired s then sonicWriteToStream A h s [] 0
               else Some (1, s)) = Some (r1, s1) \<and>
         (r1 = 0 \<and> s' = s1 \<or>
          (\<exists>ib'. sonicWriteToStream A h
              (s1\<lparr>inputBuffer := Some ib', numInputSamples := maxRequired s\<rparr>) [] 0
                = Some (r, s')))"
      using a False
      by (auto simp: sonicFlushStream_def Let_def split: Option.bind_splits if_splits)
    then obtain r1 s1 where
      first: "(if numInputSamples s \<ge> maxRequired s then sonicWriteToStream A h s [] 0
               else Some (1, s)) = Some (r1, s1)"
      and rest: "r1 = 0 \<and> s' = s1 \<or>
          (\<exists>ib'. sonicWriteToStream A h
              (s1\<lparr>inputBuffer := Some ib', numInputSamples := maxRequired s\<rparr>) [] 0
                = Some (r, s'))"
      by blast
    have c1: "config_eq s s1"
      using first by (auto split: if_splits dest: write_config)
    from rest show ?thesis
    proof
      assume "r1 = 0 \<and> s' = s1"
      with c1 show ?thesis by simp
    next
      assume "\<exists>ib'. sonicWriteToStream A h
              (s1\<lparr>inputBuffer := Some ib', numInputSamples := maxRequired s\<rparr>) [] 0
                = Some (r, s')"
      then obtain ib' where
        "sonicWriteToStream A h
              (s1\<lparr>inputBuffer := Some ib', numInputSamples := maxRequired s\<rparr>) [] 0 = Some (r, s')"
        by blast
      then have "config_eq (s1\<lparr>inputBuffer := Some ib', numInputSamples := maxRequired s\<rparr>) s'"
        by (rule write_config)
      then have "config_eq s1 s'" by (simp add: config_eq_def)
      with c1 show ?thesis by (rule config_eq_trans)
    qed
  qed
qed

lemma run_config: "run A h s cs = Some (rs, s') \<Longrightarrow> config_eq s s'"
proof (induction cs arbitrary: s rs)
  case Nil
  then show ?case by simp
next
  case (Cons c cs)
  show ?case
  proof (cases c)
    case (Write xs)
    with Cons.prems obtain r s1 rs1 where
      "sonicWriteToStream A h s xs (int (length xs)) = Some (r, s1)"
      "run A h s1 cs = Some (rs1, s')"
      by (auto split: Option.bind_splits)
    then show ?thesis
      using Cons.IH write_config config_eq_trans by blast
  next
    case (Read k)
    with Cons.prems obtain r d s1 rs1 where
      "sonicReadFromStream s k = Some (r, d, s1)"
      "run A h s1 cs = Some (rs1, s')"
      by (auto split: Option.bind_splits)
    then show ?thesis
      using Cons.IH read_config config_eq_trans by blast
  next
    case Flush
    with Cons.prems obtain r s1 rs1 where
      "sonicFlushStream A h s = Some (r, s1)"
      "run A h s1 cs = Some (rs1, s')"
      by (auto split: Option.bind_splits)
    then show ?thesis
      using Cons.IH flush_config config_eq_trans by blast
  qed
qed

lemma c_div_pos: "0 \<le> a \<Longrightarrow> 0 < b \<Longrightarrow> c_div a b = a div b"
  by (cases "a = 0") (simp_all add: c_div_def)

text \<open>
  C3, as the code has it. When the header's pitch range is \<open>0 < MIN \<le> MAX\<close> and
  the sample rate is at least \<^verbatim>\<open>SONIC_MAX_PITCH\<close>, a stream that
  \<^verbatim>\<open>sonicCreateStream\<close> returns has \<open>minPeriod = sampleRate / SONIC_MAX_PITCH\<close>,
  \<open>maxPeriod = sampleRate / SONIC_MIN_PITCH\<close>, \<open>0 < minPeriod \<le> maxPeriod\<close> and
  \<open>maxRequired = 2 * maxPeriod\<close>, and after any session of writes, reads and
  flushes the three fields are as they were at creation.
\<close>

theorem period_bounds:
  assumes "0 < SONIC_MIN_PITCH h" and "SONIC_MIN_PITCH h \<le> SONIC_MAX_PITCH h"
    and "SONIC_MAX_PITCH h \<le> rate"
    and "sonicCreateStream A h spd rate = Some s0"
    and "run A h s0 cs = Some (rs, s)"
  shows "minPeriod s0 = c_div rate (SONIC_MAX_PITCH h)
       \<and> maxPeriod s0 = c_div rate (SONIC_MIN_PITCH h)
       \<and> 0 < minPeriod s0 \<and> minPeriod s0 \<le> maxPeriod s0
       \<and> maxRequired s0 = 2 * maxPeriod s0
       \<and> minPeriod s = minPeriod s0 \<and> maxPeriod s = maxPeriod s0
       \<and> maxRequired s = maxRequired s0"
proof -
  note cr = create_spec [OF assms(4)]
  have r: "0 \<le> rate" "0 < SONIC_MAX_PITCH h" using assms by simp_all
  have mn: "minPeriod s0 = rate div SONIC_MAX_PITCH h"
    using cr(3) r by (simp add: c_div_pos)
  have mx: "maxPeriod s0 = rate div SONIC_MIN_PITCH h"
    using cr(4) r assms(1) by (simp add: c_div_pos)
  have pos: "0 < minPeriod s0"
    using mn r assms(3) by (simp add: pos_imp_zdiv_pos_iff)
  have le: "minPeriod s0 \<le> maxPeriod s0"
    unfolding mn mx using assms(1,2) r by (intro zdiv_mono2) simp_all
  have "config_eq s0 s" using assms(5) by (rule run_config)
  with cr(3,4,5) pos le show ?thesis by (simp add: config_eq_def)
qed

theorem period_bounds_witness:
  "0 < SONIC_MIN_PITCH sonic_h_example
   \<and> SONIC_MIN_PITCH sonic_h_example \<le> SONIC_MAX_PITCH sonic_h_example
   \<and> SONIC_MAX_PITCH sonic_h_example \<le> 800
   \<and> (\<exists>s0 rs s. sonicCreateStream alloc_ok sonic_h_example 2 800 = Some s0
        \<and> run alloc_ok sonic_h_example s0 bounds_session = Some (rs, s)
        \<and> minPeriod s0 = 2 \<and> maxPeriod s0 = 12 \<and> maxRequired s0 = 24
        \<and> minPeriod s = 2 \<and> maxPeriod s = 12 \<and> maxRequired s = 24)"
proof -
  have h: "0 < SONIC_MIN_PITCH sonic_h_example"
    "SONIC_MIN_PITCH sonic_h_example \<le> SONIC_MAX_PITCH sonic_h_example"
    "SONIC_MAX_PITCH sonic_h_example \<le> 800"
    by (simp_all add: sonic_h_example_def)
  have ev: "case sonicCreateStream alloc_ok sonic_h_example 2 800 of None \<Rightarrow> False
        | Some s0 \<Rightarrow>
            (case run alloc_ok sonic_h_example s0 bounds_session of None \<Rightarrow> False
             | Some (rs, s) \<Rightarrow> True)"
    by code_simp
  then obtain s0 rs s where
    c: "sonicCreateStream alloc_ok sonic_h_example 2 800 = Some s0"
    and r: "run alloc_ok sonic_h_example s0 bounds_session = Some (rs, s)"
    by (auto split: option.splits)
  have d: "c_div 800 (SONIC_MAX_PITCH sonic_h_example) = 2"
    "c_div 800 (SONIC_MIN_PITCH sonic_h_example) = 12"
    by (simp_all add: c_div_def sonic_h_example_def)
  from period_bounds [OF h c r] d h c r show ?thesis
    by auto
qed

text \<open>
  The claim as stated (every positive sample rate) fails: at 100 Hz, below
  \<^verbatim>\<open>SONIC_MAX_PITCH\<close>, the division gives \<open>minPeriod = 0\<close>.
\<close>

theorem period_bounds_counterexample:
  "(0::rat) < 2 \<and> (0::int) < 100
   \<and> map_option minPeriod (sonicCreateStream alloc_ok sonic_h_example 2 100) = Some 0"
  by (simp add: sonicCreateStream_def calloc_def alloc_ok_def sonic_h_example_def c_div_def Let_def)

text \<open>With any header, a rate below \<^verbatim>\<open>SONIC_MAX_PITCH\<close> gives \<open>minPeriod = 0\<close>.\<close>

lemma minPeriod_zero:
  assumes "0 \<le> rate" and "rate < SONIC_MAX_PITCH h"
    and "sonicCreateStream A h spd rate = Some s"
  shows "minPeriod s = 0"
  using create_spec(3) [OF assms(3)] assms(1,2) by (simp add: c_div_pos)

section \<open>Silence has the shortest period\<close>

lemma load_zeros:
  assumes "set w \<subseteq> {0}" and "0 \<le> i" and "i < int (length w)"
  shows "load w i = Some 0"
proof -
  have "w ! nat i \<in> set w" using assms(2,3) by (intro nth_mem) simp
  then have "w ! nat i = 0" using assms(1) by auto
  with assms(2,3) show ?thesis by (simp add: load_def)
qed

lemma diffLoop_zeros:
  assumes "set w \<subseteq> {0}" and "0 < skip" and "0 \<le> x" and "2 * period \<le> int (length w)"
  shows "diffLoop w period skip x d = Some d"
  using assms
proof (induction w period skip x d rule: diffLoop.induct)
  case (1 samples period skip xSample diff)
  show ?case
  proof (cases "xSample < period")
    case True
    have ns: "\<not> skip \<le> 0" using "1.prems" by simp
    have l1: "load samples xSample = Some 0"
      using "1.prems" True by (intro load_zeros) simp_all
    have l2: "load samples (xSample + period) = Some 0"
      using "1.prems" True by (intro load_zeros) simp_all
    have "diffLoop samples period skip (xSample + skip) (diff + (if (0::rat) \<le> 0 - 0 then 0 - 0 else - (0 - 0)))
            = Some (diff + (if (0::rat) \<le> 0 - 0 then 0 - 0 else - (0 - 0)))"
      using "1.prems" by (intro "1.IH" [OF True ns l1 l2 refl]) simp_all
    then show ?thesis
      using True ns l1 l2 by (subst diffLoop.simps) simp
  next
    case False
    then show ?thesis by (subst diffLoop.simps) simp
  qed
qed

lemma periodLoop_zeros:
  assumes "set w \<subseteq> {0}" and "0 < skip" and "1 \<le> p" and "2 * maxP \<le> int (length w)"
    and "md = 0"
  shows "periodLoop w maxP skip p best md = Some (if best = 0 \<and> p \<le> maxP then p else best)"
  using assms
proof (induction w maxP skip p best md rule: periodLoop.induct)
  case (1 samples maxP skip period bestPeriod minDiff)
  show ?case
  proof (cases "period \<le> maxP")
    case True
    have ns: "\<not> skip \<le> 0" using "1.prems" by simp
    have d: "diffLoop samples period skip 0 0 = Some 0"
      using "1.prems" True by (intro diffLoop_zeros) simp_all
    show ?thesis
    proof (cases "bestPeriod = 0")
      case b: True
      then have c: "bestPeriod = 0 \<or> (0::rat) < minDiff * rat_of_int period" by simp
      have "periodLoop samples maxP skip (period + skip) period (0 / rat_of_int period)
              = Some (if period = 0 \<and> period + skip \<le> maxP then period + skip else period)"
        using "1.prems" by (intro "1.IH"(1) [OF True ns d c]) simp_all
      then show ?thesis
        using True ns b d "1.prems" by (subst periodLoop.simps) simp
    next
      case b: False
      then have c: "\<not> (bestPeriod = 0 \<or> (0::rat) < minDiff * rat_of_int period)"
        using "1.prems" by simp
      have "periodLoop samples maxP skip (period + skip) bestPeriod minDiff
              = Some (if bestPeriod = 0 \<and> period + skip \<le> maxP then period + skip else bestPeriod)"
        using "1.prems" by (intro "1.IH"(2) [OF True ns d c]) simp_all
      then show ?thesis
        using True ns b d "1.prems" by (subst periodLoop.simps) simp
    qed
  next
    case False
    then show ?thesis by (subst periodLoop.simps) simp
  qed
qed

lemma findPitchPeriodInRange_zeros:
  assumes "set w \<subseteq> {0}" and "0 < skip" and "1 \<le> minP" and "minP \<le> maxP"
    and "2 * maxP \<le> int (length w)"
  shows "findPitchPeriodInRange w minP maxP skip = Some minP"
  using periodLoop_zeros [OF assms(1,2,3,5) refl, of 0] assms(4)
  by (simp add: findPitchPeriodInRange_def)

lemma c_int_of_int [simp]: "c_int (of_int n) = n"
  by (simp add: c_int_def)

lemma c_int_mono: "x \<le> y \<Longrightarrow> c_int x \<le> c_int y"
proof (cases "0 \<le> x")
  case True
  then show "x \<le> y \<Longrightarrow> c_int x \<le> c_int y"
    by (simp add: c_int_def floor_mono)
next
  case False
  assume xy: "x \<le> y"
  show "c_int x \<le> c_int y"
  proof (cases "0 \<le> y")
    case True
    have "\<lceil>x\<rceil> \<le> 0" using False by (simp add: ceiling_le_zero)
    moreover have "0 \<le> \<lfloor>y\<rfloor>" using True by simp
    ultimately have "\<lceil>x\<rceil> \<le> \<lfloor>y\<rfloor>" by linarith
    then show ?thesis using False True by (simp add: c_int_def)
  next
    case y: False
    with False xy show ?thesis by (simp add: c_int_def ceiling_mono)
  qed
qed

lemma findPitchPeriod_zeros:
  assumes "set w \<subseteq> {0}" and "1 \<le> minPeriod s" and "minPeriod s \<le> maxPeriod s"
    and "2 * maxPeriod s \<le> int (length w)"
    and "0 < SONIC_AMDF_FREQ h" and "0 \<le> SONIC_AMDF_RANGE h"
  shows "findPitchPeriod h s w = Some (minPeriod s)"
proof -
  let ?skip = "if sampleRate s > SONIC_AMDF_FREQ h
               then c_div (sampleRate s) (SONIC_AMDF_FREQ h) else 1"
  have skip: "0 < ?skip"
    using assms(5) by (auto simp: c_div_pos pos_imp_zdiv_pos_iff)
  have first: "findPitchPeriodInRange w (minPeriod s) (maxPeriod s) ?skip = Some (minPeriod s)"
    using assms(1) skip assms(2,3,4) by (rule findPitchPeriodInRange_zeros)
  let ?p = "rat_of_int (minPeriod s)"
  have p: "0 < ?p" using assms(2) by simp
  have lo: "c_int (?p * (1 - SONIC_AMDF_RANGE h)) \<le> minPeriod s"
  proof -
    have "?p * (1 - SONIC_AMDF_RANGE h) \<le> ?p"
      using p assms(6) by (simp add: mult_le_cancel_left2)
    from c_int_mono [OF this] show ?thesis by simp
  qed
  have hi: "minPeriod s \<le> c_int (?p * (1 + SONIC_AMDF_RANGE h))"
  proof -
    have "?p \<le> ?p * (1 + SONIC_AMDF_RANGE h)"
      using p assms(6) by (simp add: mult_le_cancel_left1)
    from c_int_mono [OF this] show ?thesis by simp
  qed
  let ?minP = "if c_int (?p * (1 - SONIC_AMDF_RANGE h)) < minPeriod s then minPeriod s
               else c_int (?p * (1 - SONIC_AMDF_RANGE h))"
  let ?maxP = "if c_int (?p * (1 + SONIC_AMDF_RANGE h)) > maxPeriod s then maxPeriod s
               else c_int (?p * (1 + SONIC_AMDF_RANGE h))"
  have minP: "?minP = minPeriod s" using lo by simp
  have maxP: "minPeriod s \<le> ?maxP" "?maxP \<le> maxPeriod s" using hi assms(3) by simp_all
  have second: "findPitchPeriodInRange w ?minP ?maxP 1 = Some (minPeriod s)"
    unfolding minP using assms(1,2,4) maxP
    by (intro findPitchPeriodInRange_zeros) simp_all
  show ?thesis
    unfolding findPitchPeriod_def Let_def first using second by simp
qed

section \<open>Skipping and inserting a pitch period\<close>

lemma take_Suc_update:
  "k < length xs \<Longrightarrow> take (Suc k) (xs[k := v]) = take k xs @ [v]"
  by (simp add: take_Suc_conv_app_nth)

lemma skipLoop_nat:
  assumes "t \<le> N" and "N + p \<le> length w" and "base + N \<le> length ob"
  shows "skipLoop w (int p) (int N) (1 / of_int (int N)) ob (int base) (int t)
           = Some (take (base + t) ob @ map (skipFade w p N) [t..<N] @ drop (base + N) ob)"
  using assms
proof (induction "N - t" arbitrary: t ob)
  case 0
  then have "t = N" by simp
  then show ?case by (subst skipLoop.simps) simp
next
  case (Suc k)
  then have t: "t < N" by simp
  let ?v = "1 / of_int (int N) * (w ! t * of_int (int N - int t) + w ! (t + p) * of_int (int t))"
  have v: "?v = skipFade w p N t"
    using t by (simp add: skipFade_def of_nat_diff)
  have l1: "load w (int t) = Some (w ! t)"
    using t Suc.prems by (simp add: load_def)
  have l2: "load w (int t + int p) = Some (w ! (t + p))"
    using t Suc.prems by (simp add: load_def nat_int_add)
  have st: "store ob (int base + int t) ?v = Some (ob[base + t := ?v])"
    using t Suc.prems by (simp add: store_def nat_int_add)
  have IH: "skipLoop w (int p) (int N) (1 / of_int (int N)) (ob[base + t := ?v]) (int base) (int (Suc t))
        = Some (take (base + Suc t) (ob[base + t := ?v]) @ map (skipFade w p N) [Suc t..<N]
                @ drop (base + N) (ob[base + t := ?v]))"
    using Suc.hyps(2) t Suc.prems by (intro Suc.hyps(1)) simp_all
  have tk: "take (base + Suc t) (ob[base + t := ?v]) = take (base + t) ob @ [skipFade w p N t]"
    using t Suc.prems v take_Suc_update [of "base + t" ob ?v] by simp
  have dr: "drop (base + N) (ob[base + t := ?v]) = drop (base + N) ob"
    using t by simp
  have up: "[t..<N] = t # [Suc t..<N]"
    using t by (simp add: upt_conv_Cons)
  have "skipLoop w (int p) (int N) (1 / of_int (int N)) ob (int base) (int t)
          = skipLoop w (int p) (int N) (1 / of_int (int N)) (ob[base + t := ?v]) (int base) (int t + 1)"
    using t l1 l2 st by (subst skipLoop.simps) simp
  also have "int t + 1 = int (Suc t)" by simp
  finally show ?case
    unfolding IH tk dr up by simp
qed


lemma out_frame_refl [simp]: "out_frame s s"
  by (simp add: out_frame_def)

lemma out_frame_trans: "out_frame s s' \<Longrightarrow> out_frame s' s'' \<Longrightarrow> out_frame s s''"
  by (simp add: out_frame_def config_eq_def)


lemma out_ok_remaining [simp]: "out_ok (s\<lparr>remainingInputToCopy := r\<rparr>) = out_ok s"
  by (simp add: out_ok_def cong: option.case_cong)

lemma outputQueue_remaining [simp]:
  "outputQueue (s\<lparr>remainingInputToCopy := r\<rparr>) = outputQueue s"
  by (simp add: outputQueue_def cong: option.case_cong)






section \<open>The pitch search\<close>











section \<open>Silence at 8000 Hz\<close>

text \<open>
  A stream created at 8000 Hz with the example header has periods from 20 to 123
  and buffers of 246 samples; \<open>silent_input spd n\<close> is that stream after \<open>n\<close>
  zero samples have been queued.
\<close>

lemma created_8000:
  "sonicCreateStream alloc_ok sonic_h_example spd 8000 =
     Some \<lparr> speed = spd, inputBuffer = Some (replicate 246 0), outputBuffer = Some (replicate 246 0),
            inputBufferSize = 246, outputBufferSize = 246, numInputSamples = 0,
            numOutputSamples = 0, minPeriod = 20, maxPeriod = 123, maxRequired = 246,
            remainingInputToCopy = 0, sampleRate = 8000 \<rparr>"
  by (simp add: sonicCreateStream_def calloc_def alloc_ok_def sonic_h_example_def c_div_def Let_def)

lemma write_silence_8000:
  assumes "n \<le> 246" and "\<not> identity_speed spd"
  shows "addSamplesToInputBuffer alloc_ok (silent_input spd 0) (replicate n 0) (int n)
           = Some (1, silent_input spd n)"
proof (cases "n = 0")
  case True
  then show ?thesis by (simp add: addSamplesToInputBuffer_def)
next
  case False
  have "replicate n 0 @ replicate (246 - n) (0::rat) = replicate 246 0"
    using assms(1) by (simp add: replicate_add [symmetric])
  with False assms(1) show ?thesis
    by (simp add: addSamplesToInputBuffer_def enlargeInputBufferIfNeeded_def memcpy_def
          silent_input_def)
qed

lemma findPitchPeriod_silence:
  "findPitchPeriod sonic_h_example (silent_input spd n) (replicate 246 0) = Some 20"
proof -
  have "findPitchPeriod sonic_h_example (silent_input spd n) (replicate 246 0)
          = Some (minPeriod (silent_input spd n))"
    by (rule findPitchPeriod_zeros) (simp_all add: silent_input_def sonic_h_example_def)
  then show ?thesis by (simp add: silent_input_def)
qed

lemma skipLoop_done: "N \<le> t \<Longrightarrow> skipLoop w p N scale ob base t = Some ob"
  by (subst skipLoop.simps) simp

lemma insertLoop_done: "N \<le> t \<Longrightarrow> insertLoop w p N scale ob base t = Some ob"
  by (subst insertLoop.simps) simp

text \<open>
  With any header and any window: when the speed exceeds \<open>period + 1\<close>,
  \<^verbatim>\<open>skipPitchPeriod\<close> returns \<open>newSamples = 0\<close> without touching the stream, and
  the driver loop returns \<open>0\<close>.
\<close>

lemma skipPitchPeriod_zero:
  assumes "out_ok s" and "2 \<le> spd" and "0 \<le> period" and "of_int period < spd - 1"
  shows "skipPitchPeriod A s w spd period = Some (0, s)"
proof -
  have "0 \<le> of_int period / (spd - 1)" "of_int period / (spd - 1) < 1"
    using assms(2,3,4) by simp_all
  then have n: "c_int (of_int period / (spd - 1)) = 0"
    by (simp add: c_int_def floor_eq_iff)
  from assms(1) obtain ob where ob: "outputBuffer s = Some ob"
    "numOutputSamples s \<le> outputBufferSize s"
    by (rule out_okE)
  show ?thesis
    unfolding skipPitchPeriod_def n using assms(2) ob
    by (simp add: enlargeOutputBufferIfNeeded_def skipLoop_done)
qed

lemma driverLoop_zero:
  assumes "out_ok s" and "2 \<le> spd" and "remainingInputToCopy s \<le> 0"
    and "inputBuffer s = Some ib" and "ptr_add ib position = Some w"
    and "findPitchPeriod h s w = Some period" and "0 \<le> period" and "of_int period < spd - 1"
  shows "driverLoop A h spd maxReq numSamples s position = Some (0, position + period, s)"
proof -
  have "driverStep A h s spd position = Some (0, position + (period + 0), s)"
    unfolding driverStep_def
    using assms(2,3,4,5,6) skipPitchPeriod_zero [OF assms(1,2,7,8), of A w] by simp
  then show ?thesis
    by (subst driverLoop.simps) simp
qed

lemma skip_200:
  "skipPitchPeriod alloc_ok (silent_input 200 246) (replicate 246 0) 200 20
     = Some (0, silent_input 200 246)"
proof -
  have n: "c_int (of_int 20 / (200 - 1)) = 0" by (simp add: c_int_def floor_eq_iff)
  show ?thesis
    unfolding skipPitchPeriod_def n
    by (simp add: enlargeOutputBufferIfNeeded_def silent_input_def skipLoop_done)
qed

lemma driverStep_200:
  "driverStep alloc_ok sonic_h_example (silent_input 200 246) 200 0
     = Some (0, 20, silent_input 200 246)"
proof -
  have i: "inputBuffer (silent_input 200 246) = Some (replicate 246 0)"
    "remainingInputToCopy (silent_input 200 246) = 0"
    by (simp_all add: silent_input_def)
  show ?thesis
    unfolding driverStep_def i
    by (simp add: ptr_add_def findPitchPeriod_silence skip_200)
qed

lemma insert_hundredth:
  "insertPitchPeriod alloc_ok (silent_input (1 / 100) 246) (replicate 246 0) (1 / 100) 20
     = Some (0, (silent_input (1 / 100) 246)\<lparr>numOutputSamples := 20\<rparr>)"
proof -
  have n: "c_int (of_int 20 * (1 / 100) / (1 - 1 / 100)) = 0"
    by (simp add: c_int_def floor_eq_iff)
  have "replicate 20 (0::rat) @ replicate 226 0 = replicate 246 0"
    by (simp add: replicate_add [symmetric])
  then have m: "memcpy (replicate 246 0) 0 (replicate 246 0) 20 = Some (replicate 246 0)"
    by (simp add: memcpy_def)
  show ?thesis
    unfolding insertPitchPeriod_def n
    by (simp add: enlargeOutputBufferIfNeeded_def silent_input_def m insertLoop_done)
qed

lemma driverStep_hundredth:
  "driverStep alloc_ok sonic_h_example (silent_input (1 / 100) 246) (1 / 100) 0
     = Some (0, 0, (silent_input (1 / 100) 246)\<lparr>numOutputSamples := 20\<rparr>)"
proof -
  have i: "inputBuffer (silent_input (1 / 100) 246) = Some (replicate 246 0)"
    "remainingInputToCopy (silent_input (1 / 100) 246) = 0"
    by (simp_all add: silent_input_def)
  show ?thesis
    unfolding driverStep_def i
    by (simp add: ptr_add_def findPitchPeriod_silence insert_hundredth)
qed

lemma write_200:
  "sonicWriteToStream alloc_ok sonic_h_example (silent_input 200 0) (replicate 246 0) 246
     = Some (0, silent_input 200 246)"
proof -
  have ni: "\<not> identity_speed 200" by (simp add: identity_speed_def)
  have a: "addSamplesToInputBuffer alloc_ok (silent_input 200 0) (replicate 246 0) 246
           = Some (1, silent_input 200 246)"
    using write_silence_8000 [of 246 200] ni by simp
  have l: "driverLoop alloc_ok sonic_h_example 200 246 246 (silent_input 200 246) 0
             = Some (0, 20, silent_input 200 246)"
    by (subst driverLoop.simps) (simp add: driverStep_200)
  have f: "speed (silent_input 200 0) = 200" "maxRequired (silent_input 200 0) = 246"
    "numInputSamples (silent_input 200 246) = 246"
    by (simp_all add: silent_input_def)
  show ?thesis
    unfolding sonicWriteToStream_def Let_def f a by (simp add: l f)
qed

lemma write_hundredth:
  "sonicWriteToStream alloc_ok sonic_h_example (silent_input (1 / 100) 0) (replicate 246 0) 246
     = Some (0, (silent_input (1 / 100) 246)\<lparr>numOutputSamples := 20\<rparr>)"
proof -
  have ni: "\<not> identity_speed (1 / 100)" by (simp add: identity_speed_def)
  have a: "addSamplesToInputBuffer alloc_ok (silent_input (1 / 100) 0) (replicate 246 0) 246
           = Some (1, silent_input (1 / 100) 246)"
    using write_silence_8000 [of 246 "1 / 100"] ni by simp
  have l: "driverLoop alloc_ok sonic_h_example (1 / 100) 246 246 (silent_input (1 / 100) 246) 0
             = Some (0, 0, (silent_input (1 / 100) 246)\<lparr>numOutputSamples := 20\<rparr>)"
    by (subst driverLoop.simps) (simp add: driverStep_hundredth)
  have f: "speed (silent_input (1 / 100) 0) = 1 / 100"
    "maxRequired (silent_input (1 / 100) 0) = 246"
    "numInputSamples (silent_input (1 / 100) 246) = 246"
    by (simp_all add: silent_input_def)
  show ?thesis
    unfolding sonicWriteToStream_def Let_def f a by (simp add: l f)
qed

text \<open>
  C4 fails on the code. With an allocator that grants every request, a write of 246
  zero samples to a stream created at speed \<open>200\<close> returns \<open>0\<close>: the period is 20,
  \<^verbatim>\<open>skipPitchPeriod\<close> computes \<open>newSamples = (int)(20 / 199) = 0\<close> and the driver
  takes that for a failed allocation. The same write at speed \<open>1/100\<close> returns
  \<open>0\<close> after \<^verbatim>\<open>insertPitchPeriod\<close> has copied the period of 20 samples to the
  output, with \<open>newSamples = (int)(0.2 / 0.99) = 0\<close>. Both buffers are still
  allocated.
\<close>

theorem write_fails_without_allocation_failure:
  "sonicCreateStream alloc_ok sonic_h_example 200 8000
     \<bind> (\<lambda>s. sonicWriteToStream alloc_ok sonic_h_example s (replicate 246 0) 246)
   = Some (0, silent_input 200 246)
   \<and> sonicCreateStream alloc_ok sonic_h_example (1 / 100) 8000
     \<bind> (\<lambda>s. sonicWriteToStream alloc_ok sonic_h_example s (replicate 246 0) 246)
   = Some (0, (silent_input (1 / 100) 246)\<lparr>numOutputSamples := 20\<rparr>)
   \<and> inputBuffer (silent_input 200 246) = Some (replicate 246 0)
   \<and> outputBuffer (silent_input 200 246) = Some (replicate 246 0)
   \<and> inputBuffer (silent_input (1 / 100) 246) = Some (replicate 246 0)
   \<and> outputBuffer (silent_input (1 / 100) 246) = Some (replicate 246 0)"
proof -
  have c: "sonicCreateStream alloc_ok sonic_h_example spd 8000 = Some (silent_input spd 0)" for spd
    by (simp add: created_8000 silent_input_def)
  show ?thesis
    unfolding c by (simp add: write_200 write_hundredth) (simp add: silent_input_def)
qed

lemma skip_2:
  "\<exists>ob'. skipPitchPeriod alloc_ok (silent_input 2 246) (replicate 246 0) 2 20
           = Some (20, (silent_input 2 246)\<lparr>outputBuffer := Some ob', numOutputSamples := 20\<rparr>)
         \<and> length ob' = 246"
proof -
  have n: "c_int (of_int 20 / (2 - 1)) = 20" by (simp add: c_int_def)
  let ?ob' = "take (0 + 0) (replicate 246 (0::rat))
                @ map (skipFade (replicate 246 0) 20 20) [0..<20]
                @ drop (0 + 20) (replicate 246 0)"
  have l: "skipLoop (replicate 246 0) (int 20) (int 20) (1 / of_int (int 20)) (replicate 246 0)
             (int 0) (int 0) = Some ?ob'"
    by (rule skipLoop_nat) simp_all
  have len: "length ?ob' = 246" by simp
  have "skipPitchPeriod alloc_ok (silent_input 2 246) (replicate 246 0) 2 20
           = Some (20, (silent_input 2 246)\<lparr>outputBuffer := Some ?ob', numOutputSamples := 20\<rparr>)"
    unfolding skipPitchPeriod_def n using l
    by (simp add: enlargeOutputBufferIfNeeded_def silent_input_def)
  with len show ?thesis by blast
qed

text \<open>
  C2 fails on the code. At speed \<open>2\<close>, after a write of 200 zero samples,
  \<^verbatim>\<open>sonicFlushStream\<close> pads the input to 246 samples, makes one pass of the driver
  loop (a period of 20 skipped, 20 samples written, \<open>position = 40\<close>) and returns
  \<open>1\<close> with 206 samples left in the input queue, 160 of them the caller's.
\<close>

theorem flush_leaves_input:
  "sonicCreateStream alloc_ok sonic_h_example 2 8000
     \<bind> (\<lambda>s0. sonicWriteToStream alloc_ok sonic_h_example s0 (replicate 200 0) 200)
     \<bind> (\<lambda>(r1, s1). sonicFlushStream alloc_ok sonic_h_example s1
     \<bind> (\<lambda>(r2, s2). Some (r1, r2, numInputSamples s2, sonicSamplesAvailale s2)))
   = Some (1, 1, 206, 20)"
proof -
  have c: "sonicCreateStream alloc_ok sonic_h_example 2 8000 = Some (silent_input 2 0)"
    by (simp add: created_8000 silent_input_def)
  have ni: "\<not> identity_speed 2" by (simp add: identity_speed_def)
  have a: "addSamplesToInputBuffer alloc_ok (silent_input 2 0) (replicate 200 0) 200
           = Some (1, silent_input 2 200)"
    using write_silence_8000 [of 200 2] ni by simp
  have f: "speed (silent_input 2 n) = 2" "maxRequired (silent_input 2 n) = 246"
    "numInputSamples (silent_input 2 n) = int n"
    "inputBuffer (silent_input 2 n) = Some (replicate 246 0)"
    "remainingInputToCopy (silent_input 2 n) = 0" for n
    by (simp_all add: silent_input_def)
  have w1: "sonicWriteToStream alloc_ok sonic_h_example (silent_input 2 0) (replicate 200 0) 200
             = Some (1, silent_input 2 200)"
    unfolding sonicWriteToStream_def Let_def f a by (simp add: f)
  have "take 200 (replicate 246 (0::rat)) @ replicate 46 0 = replicate 246 0"
    by (simp add: replicate_add [symmetric])
  then have ms: "memset0 (replicate 246 0) 200 46 = Some (replicate 246 0)"
    by (simp add: memset0_def)
  have pad: "(silent_input 2 200)\<lparr>inputBuffer := Some (replicate 246 0), numInputSamples := 246\<rparr>
               = silent_input 2 246"
    by (simp add: silent_input_def)
  from skip_2 obtain ob' where
    sk: "skipPitchPeriod alloc_ok (silent_input 2 246) (replicate 246 0) 2 20
           = Some (20, (silent_input 2 246)\<lparr>outputBuffer := Some ob', numOutputSamples := 20\<rparr>)"
    and len: "length ob' = 246"
    by blast
  let ?s' = "(silent_input 2 246)\<lparr>outputBuffer := Some ob', numOutputSamples := 20\<rparr>"
  have ds: "driverStep alloc_ok sonic_h_example (silent_input 2 246) 2 0 = Some (20, 40, ?s')"
    unfolding driverStep_def f
    by (simp add: ptr_add_def findPitchPeriod_silence sk)
  have dl: "driverLoop alloc_ok sonic_h_example 2 246 246 (silent_input 2 246) 0
              = Some (1, 40, ?s')"
    by (subst driverLoop.simps) (simp add: ds)
  have "take 206 (drop 40 (replicate 246 (0::rat))) @ drop 206 (replicate 246 0)
          = replicate 246 0"
    by (simp add: replicate_add [symmetric])
  then have rm: "removeInputSamples ?s' 40 = Some (?s'\<lparr>numInputSamples := 206\<rparr>)"
    by (simp add: removeInputSamples_def memmove_def silent_input_def)
  have a0: "addSamplesToInputBuffer alloc_ok (silent_input 2 246) [] 0 = Some (1, silent_input 2 246)"
    by (simp add: addSamplesToInputBuffer_def)
  have w2: "sonicWriteToStream alloc_ok sonic_h_example (silent_input 2 246) [] 0
              = Some (1, ?s'\<lparr>numInputSamples := 206\<rparr>)"
    unfolding sonicWriteToStream_def Let_def f a0 by (simp add: f dl rm)
  have fl: "sonicFlushStream alloc_ok sonic_h_example (silent_input 2 200)
              = Some (1, ?s'\<lparr>numInputSamples := 206\<rparr>)"
    unfolding sonicFlushStream_def Let_def f by (simp add: f ms pad w2)
  show ?thesis
    unfolding c by (simp add: w1 fl sonicSamplesAvailale_def)
qed

section \<open>The write of no samples\<close>




end
